theory Spec2Isabelle
  imports Complex_Main "HOL-Library.Word" "HOL-Library.AList"
begin

section \<open>JavaScript values read from JSON\<close>

text \<open>
  The proxy handles loosely typed JSON: the events of the upstream stream, the claims of a
  token, the answer of the billing server. A value is what \<^verbatim>\<open>JSON.parse\<close> can return; an
  absent property (\<^verbatim>\<open>undefined\<close>) is \<open>None\<close> of \<open>json option\<close>. Objects are association
  lists read with \<open>map_of\<close>. Numbers are reals (the claims below never depend on rounding).
\<close>

datatype json =
  JNull
  | JBool bool
  | JNum real
  | JStr string
  | JArr "json list"
  | JObj "(string \<times> json) list"

text \<open>\<^verbatim>\<open>v.k\<close> on a value that is neither \<^verbatim>\<open>null\<close> nor \<^verbatim>\<open>undefined\<close>: only objects carry the
  properties the proxy asks for.\<close>

fun get_prop :: "json \<Rightarrow> string \<Rightarrow> json option" where
  "get_prop (JObj kvs) k = map_of kvs k"
| "get_prop _ k = None"

text \<open>\<^verbatim>\<open>v?.k\<close>: \<^verbatim>\<open>undefined\<close> when \<^verbatim>\<open>v\<close> is \<^verbatim>\<open>null\<close> or \<^verbatim>\<open>undefined\<close>.\<close>

fun opt_prop :: "json option \<Rightarrow> string \<Rightarrow> json option" where
  "opt_prop None k = None"
| "opt_prop (Some JNull) k = None"
| "opt_prop (Some v) k = get_prop v k"

text \<open>Truthiness, as \<^verbatim>\<open>if (v)\<close>, \<^verbatim>\<open>v && w\<close> and \<^verbatim>\<open>v || w\<close> test it.\<close>

fun truthy :: "json option \<Rightarrow> bool" where
  "truthy None = False"
| "truthy (Some JNull) = False"
| "truthy (Some (JBool b)) = b"
| "truthy (Some (JNum n)) = (n \<noteq> 0)"
| "truthy (Some (JStr s)) = (s \<noteq> [])"
| "truthy (Some (JArr xs)) = True"
| "truthy (Some (JObj kvs)) = True"

text \<open>\<^verbatim>\<open>v != null\<close> and the left side of \<^verbatim>\<open>v ?? w\<close>.\<close>

fun nullish :: "json option \<Rightarrow> bool" where
  "nullish None = True"
| "nullish (Some JNull) = True"
| "nullish (Some v) = False"

text \<open>\<^verbatim>\<open>v || d\<close>.\<close>

fun or_else :: "json option \<Rightarrow> json \<Rightarrow> json" where
  "or_else None d = d"
| "or_else (Some v) d = (if truthy (Some v) then v else d)"

section \<open>The usage-tracking transform (stream-parser)\<close>

type_synonym byte = "8 word"

record UsageTokens =
  inputTokens :: json
  outputTokens :: json
  cacheReadTokens :: json
  cacheCreationTokens :: json

text \<open>
  The platform functions the transform calls: \<^verbatim>\<open>JSON.parse\<close> (\<open>None\<close> when it throws) and
  the streaming \<^verbatim>\<open>TextDecoder\<close>, which keeps a state of its own between chunks. Decoded
  text is a \<open>string\<close>: its characters stand for code units below 256.
\<close>

record 'd platform =
  JSON_parse :: "string \<Rightarrow> json option"
  decode :: "'d \<Rightarrow> byte list \<Rightarrow> string \<times> 'd"
  decoder0 :: 'd

text \<open>
  The closure of \<^verbatim>\<open>createUsageTrackingTransform\<close>. The accumulator is an object: \<open>heap\<close> is the
  store of \<^verbatim>\<open>UsageTokens\<close> objects, \<open>usage\<close> the reference the closure holds, \<open>next_ref\<close> the
  next free reference. \<open>enqueued\<close> lists the chunks handed to \<^verbatim>\<open>controller.enqueue\<close>.
\<close>

record 'd tracker =
  heap :: "nat \<Rightarrow> UsageTokens"
  next_ref :: nat
  usage :: nat
  model :: json
  buffer :: string
  decoder :: 'd
  enqueued :: "byte list list"

definition zero_usage :: UsageTokens where
  "zero_usage = \<lparr>inputTokens = JNum 0, outputTokens = JNum 0,
     cacheReadTokens = JNum 0, cacheCreationTokens = JNum 0\<rparr>"

definition createUsageTrackingTransform :: "'d platform \<Rightarrow> 'd tracker" where
  "createUsageTrackingTransform P =
     \<lparr>heap = (\<lambda>_. zero_usage), next_ref = 1, usage = 0, model = JStr [], buffer = [],
      decoder = decoder0 P, enqueued = []\<rparr>"

text \<open>\<^verbatim>\<open>extractUsage(event, usage)\<close> writes into the object \<open>a\<close>. \<open>None\<close>: \<^verbatim>\<open>event.type\<close> threw a
  TypeError (\<^verbatim>\<open>event\<close> is \<^verbatim>\<open>null\<close>), before any write.\<close>

definition message_start_usage :: "json \<Rightarrow> nat \<Rightarrow> (nat \<Rightarrow> UsageTokens) \<Rightarrow> (nat \<Rightarrow> UsageTokens)" where
  "message_start_usage u a h =
     (let h1 = h(a := (h a)\<lparr>inputTokens := or_else (get_prop u ''input_tokens'') (JNum 0)\<rparr>);
          h2 = h1(a := (h1 a)\<lparr>cacheReadTokens := or_else (get_prop u ''cache_read_input_tokens'') (JNum 0)\<rparr>);
          h3 = h2(a := (h2 a)\<lparr>cacheCreationTokens := or_else (get_prop u ''cache_creation_input_tokens'') (JNum 0)\<rparr>)
      in h3)"

definition message_delta_usage :: "json \<Rightarrow> nat \<Rightarrow> (nat \<Rightarrow> UsageTokens) \<Rightarrow> (nat \<Rightarrow> UsageTokens)" where
  "message_delta_usage u a h =
     (let h1 = (case get_prop u ''output_tokens'' of
                  Some v \<Rightarrow> if nullish (Some v) then h else h(a := (h a)\<lparr>outputTokens := v\<rparr>)
                | None \<Rightarrow> h);
          h2 = (case get_prop u ''input_tokens'' of
                  Some v \<Rightarrow> if nullish (Some v) then h1 else h1(a := (h1 a)\<lparr>inputTokens := v\<rparr>)
                | None \<Rightarrow> h1);
          h3 = (case get_prop u ''cache_read_input_tokens'' of
                  Some v \<Rightarrow> if nullish (Some v) then h2 else h2(a := (h2 a)\<lparr>cacheReadTokens := v\<rparr>)
                | None \<Rightarrow> h2);
          h4 = (case get_prop u ''cache_creation_input_tokens'' of
                  Some v \<Rightarrow> if nullish (Some v) then h3 else h3(a := (h3 a)\<lparr>cacheCreationTokens := v\<rparr>)
                | None \<Rightarrow> h3)
      in h4)"

definition extractUsage :: "json \<Rightarrow> nat \<Rightarrow> (nat \<Rightarrow> UsageTokens) \<Rightarrow> (nat \<Rightarrow> UsageTokens) option" where
  "extractUsage event a h =
     (if event = JNull then None
      else
        let h1 = (case opt_prop (get_prop event ''message'') ''usage'' of
                    Some u \<Rightarrow>
                      if get_prop event ''type'' = Some (JStr ''message_start'') \<and> truthy (Some u)
                      then message_start_usage u a h else h
                  | None \<Rightarrow> h);
            h2 = (case get_prop event ''usage'' of
                    Some u \<Rightarrow>
                      if get_prop event ''type'' = Some (JStr ''message_delta'') \<and> truthy (Some u)
                      then message_delta_usage u a h1 else h1
                  | None \<Rightarrow> h1)
        in Some h2)"

text \<open>\<^verbatim>\<open>s.split("\n")\<close>: never empty; the last element is the text after the last newline.\<close>

fun split_nl :: "string \<Rightarrow> string list" where
  "split_nl [] = [[]]"
| "split_nl (c # cs) =
     (if c = CHR 0x0A then [] # split_nl cs
      else (case split_nl cs of l # ls \<Rightarrow> (c # l) # ls | [] \<Rightarrow> [[c]]))"

text \<open>\<^verbatim>\<open>s.trim()\<close> on code units below 256: tab, line feed, vertical tab, form feed, carriage
  return, space and the no-break space.\<close>

definition js_space :: "char \<Rightarrow> bool" where
  "js_space c = (c \<in> set [CHR 0x09, CHR 0x0A, CHR 0x0B, CHR 0x0C, CHR 0x0D, CHR 0x20, CHR 0xA0])"

definition trim :: "string \<Rightarrow> string" where
  "trim s = rev (dropWhile js_space (rev (dropWhile js_space s)))"

definition startsWith :: "string \<Rightarrow> string \<Rightarrow> bool" where
  "startsWith s p = (take (length p) s = p)"

text \<open>The body of the \<^verbatim>\<open>for (const line of lines)\<close> loop of \<^verbatim>\<open>transform\<close>.\<close>

definition transform_line :: "'d platform \<Rightarrow> string \<Rightarrow> 'd tracker \<Rightarrow> 'd tracker" where
  "transform_line P line t =
     (if \<not> startsWith line ''data: '' then t
      else
        let data = trim (drop 6 line) in
        if data = ''[DONE]'' then t
        else
          (case JSON_parse P data of
             None \<Rightarrow> t
           | Some event \<Rightarrow>
               (case extractUsage event (usage t) (heap t) of
                  None \<Rightarrow> t
                | Some h \<Rightarrow>
                    let t1 = t\<lparr>heap := h\<rparr> in
                    (case opt_prop (get_prop event ''message'') ''model'' of
                       Some m \<Rightarrow>
                         if get_prop event ''type'' = Some (JStr ''message_start'') \<and> truthy (Some m)
                         then t1\<lparr>model := m\<rparr> else t1
                     | None \<Rightarrow> t1))))"

text \<open>The body of the loop of \<^verbatim>\<open>flush\<close>: the same, without the assignment to \<^verbatim>\<open>model\<close>.\<close>

definition flush_line :: "'d platform \<Rightarrow> string \<Rightarrow> 'd tracker \<Rightarrow> 'd tracker" where
  "flush_line P line t =
     (if \<not> startsWith line ''data: '' then t
      else
        let data = trim (drop 6 line) in
        if data = ''[DONE]'' then t
        else
          (case JSON_parse P data of
             None \<Rightarrow> t
           | Some event \<Rightarrow>
               (case extractUsage event (usage t) (heap t) of
                  None \<Rightarrow> t
                | Some h \<Rightarrow> t\<lparr>heap := h\<rparr>)))"

text \<open>\<^verbatim>\<open>transform(chunk, controller)\<close>: the chunk is enqueued first, then decoded and parsed.\<close>

definition transform :: "'d platform \<Rightarrow> byte list \<Rightarrow> 'd tracker \<Rightarrow> 'd tracker" where
  "transform P chunk t =
     (let t0 = t\<lparr>enqueued := enqueued t @ [chunk]\<rparr>;
          (txt, d) = decode P (decoder t0) chunk;
          lines = split_nl (buffer t0 @ txt);
          t1 = t0\<lparr>decoder := d, buffer := last lines\<rparr>
      in foldl (\<lambda>s line. transform_line P line s) t1 (butlast lines))"

definition flush :: "'d platform \<Rightarrow> 'd tracker \<Rightarrow> 'd tracker" where
  "flush P t =
     (if trim (buffer t) \<noteq> []
      then foldl (\<lambda>s line. flush_line P line s) t (split_nl (buffer t))
      else t)"

text \<open>\<^verbatim>\<open>getUsage: () => ({ ...usage })\<close> allocates a new object holding the accumulator's
  fields and returns its reference; \<^verbatim>\<open>getModel: () => model\<close>.\<close>

definition getUsage :: "'d tracker \<Rightarrow> nat \<times> 'd tracker" where
  "getUsage t =
     (next_ref t,
      t\<lparr>heap := (heap t)(next_ref t := heap t (usage t)), next_ref := Suc (next_ref t)\<rparr>)"

definition getModel :: "'d tracker \<Rightarrow> json" where
  "getModel t = model t"

text \<open>A whole stream: every chunk written in order, then the stream closed.\<close>

definition pipeChunks :: "'d platform \<Rightarrow> byte list list \<Rightarrow> 'd tracker" where
  "pipeChunks P chunks =
     flush P (foldl (\<lambda>t chunk. transform P chunk t) (createUsageTrackingTransform P) chunks)"

section \<open>Pass-through of the stream\<close>

lemma enqueued_transform_line: "enqueued (transform_line P line t) = enqueued t"
  by (simp add: transform_line_def Let_def split: option.splits)

lemma enqueued_flush_line: "enqueued (flush_line P line t) = enqueued t"
  by (simp add: flush_line_def Let_def split: option.splits)

lemma enqueued_transform_lines:
  "enqueued (foldl (\<lambda>s line. transform_line P line s) t ls) = enqueued t"
  by (induction ls arbitrary: t) (simp_all add: enqueued_transform_line)

lemma enqueued_flush_lines:
  "enqueued (foldl (\<lambda>s line. flush_line P line s) t ls) = enqueued t"
  by (induction ls arbitrary: t) (simp_all add: enqueued_flush_line)

lemma enqueued_transform: "enqueued (transform P chunk t) = enqueued t @ [chunk]"
  by (simp add: transform_def Let_def enqueued_transform_lines split: prod.splits)

lemma enqueued_flush: "enqueued (flush P t) = enqueued t"
  by (simp add: flush_def enqueued_flush_lines)

lemma enqueued_writes:
  "enqueued (foldl (\<lambda>t chunk. transform P chunk t) t0 chunks) = enqueued t0 @ chunks"
  by (induction chunks arbitrary: t0) (simp_all add: enqueued_transform)

text \<open>
  C2. Whatever the chunk boundaries, the parser and the decoder, the chunks the transform
  emits through end of stream are the chunks written, in order, so their concatenation is
  the concatenation of the input, byte for byte.
\<close>

theorem transform_passes_bytes_through:
  "enqueued (pipeChunks P chunks) = chunks \<and>
   concat (enqueued (pipeChunks P chunks)) = concat chunks"
  by (simp add: pipeChunks_def enqueued_flush enqueued_writes createUsageTrackingTransform_def)


section \<open>Residual buffer content at end of stream\<close>

text \<open>A platform for running the transform on ASCII text: one byte is one character, and
  the parser is given as an argument.\<close>

definition ascii_decode :: "unit \<Rightarrow> byte list \<Rightarrow> string \<times> unit" where
  "ascii_decode d bs = (map (\<lambda>b. char_of (unat b)) bs, d)"

definition encode_ascii :: "string \<Rightarrow> byte list" where
  "encode_ascii s = map (\<lambda>c. of_nat (of_char c)) s"

definition ascii_platform :: "(string \<Rightarrow> json option) \<Rightarrow> unit platform" where
  "ascii_platform parse = \<lparr>JSON_parse = parse, decode = ascii_decode, decoder0 = ()\<rparr>"

text \<open>One \<^verbatim>\<open>message_start\<close> event, its JSON text, and \<^verbatim>\<open>JSON.parse\<close> on that text alone.\<close>

definition start_payload :: string where
  \<open>start_payload =
     ''{"type":"message_start","message":{"model":"claude-sonnet-4-6","usage":{"input_tokens":42}}}''\<close>

definition start_event :: json where
  "start_event =
     JObj [(''type'', JStr ''message_start''),
           (''message'', JObj [(''model'', JStr ''claude-sonnet-4-6''),
                              (''usage'', JObj [(''input_tokens'', JNum 42)])])]"

definition parse_start_only :: "string \<Rightarrow> json option" where
  "parse_start_only s = (if s = start_payload then Some start_event else None)"

text \<open>The accumulator as the closure sees it.\<close>

definition accumulator :: "'d tracker \<Rightarrow> UsageTokens" where
  "accumulator t = heap t (usage t)"

lemma ascii_decode_encode: "ascii_decode d (encode_ascii s) = (s, d)"
  unfolding ascii_decode_def encode_ascii_def
  by (induction s) (simp_all add: unat_of_nat take_bit_eq_mod)

lemma flush_line_heap: "heap (flush_line P line t) = heap (transform_line P line t)"
  by (simp add: flush_line_def transform_line_def Let_def split: option.splits)

lemma flush_line_usage: "usage (flush_line P line t) = usage (transform_line P line t)"
  by (simp add: flush_line_def transform_line_def Let_def split: option.splits)

lemmas run_simps =
  pipeChunks_def createUsageTrackingTransform_def transform_def flush_def ascii_decode_encode
  ascii_platform_def start_event_def Let_def trim_def
  js_space_def flush_line_def transform_line_def startsWith_def extractUsage_def
  message_start_usage_def accumulator_def getModel_def zero_usage_def

lemma start_at_flush:
  assumes "parse start_payload = Some start_event"
  shows "getModel (pipeChunks (ascii_platform parse)
           [encode_ascii (''data: '' @ start_payload)]) = JStr []"
    and "inputTokens (accumulator (pipeChunks (ascii_platform parse)
           [encode_ascii (''data: '' @ start_payload)])) = JNum 42"
  using assms unfolding start_payload_def by (simp_all add: run_simps)

lemma start_in_transform:
  assumes "parse start_payload = Some start_event"
  shows "getModel (pipeChunks (ascii_platform parse)
           [encode_ascii (''data: '' @ start_payload @ [CHR 0x0A])]) = JStr ''claude-sonnet-4-6''"
    and "inputTokens (accumulator (pipeChunks (ascii_platform parse)
           [encode_ascii (''data: '' @ start_payload @ [CHR 0x0A])])) = JNum 42"
  using assms unfolding start_payload_def by (simp_all add: run_simps)

lemma parse_start_only: "parse_start_only start_payload = Some start_event"
  by (simp add: parse_start_only_def)

text \<open>
  C8. A line handled by the loop of \<^verbatim>\<open>flush\<close> leaves the accumulator exactly as the loop of
  \<^verbatim>\<open>transform\<close> would, but not the model: with any parser that reads the event's text, a
  complete \<^verbatim>\<open>message_start\<close> line that reaches the parser only as residual buffer content
  sets \<open>inputTokens\<close> to 42 and leaves the model at its initial empty string, whereas the
  same line followed by a newline sets the model.
\<close>

theorem message_start_at_flush_loses_model:
  assumes "parse start_payload = Some start_event"
  shows "accumulator (flush_line P line t) = accumulator (transform_line P line t) \<and>
   inputTokens (accumulator (pipeChunks (ascii_platform parse)
      [encode_ascii (''data: '' @ start_payload)])) = JNum 42 \<and>
   getModel (pipeChunks (ascii_platform parse)
      [encode_ascii (''data: '' @ start_payload)]) = JStr [] \<and>
   inputTokens (accumulator (pipeChunks (ascii_platform parse)
      [encode_ascii (''data: '' @ start_payload @ [CHR 0x0A])])) = JNum 42 \<and>
   getModel (pipeChunks (ascii_platform parse)
      [encode_ascii (''data: '' @ start_payload @ [CHR 0x0A])]) = JStr ''claude-sonnet-4-6''"
  using start_at_flush [where parse = parse, OF assms]
    start_in_transform [where parse = parse, OF assms]
  by (simp add: accumulator_def flush_line_heap flush_line_usage)

theorem message_start_at_flush_loses_model_witness:
  "parse_start_only start_payload = Some start_event \<and>
   inputTokens (accumulator (pipeChunks (ascii_platform parse_start_only)
      [encode_ascii (''data: '' @ start_payload)])) = JNum 42 \<and>
   getModel (pipeChunks (ascii_platform parse_start_only)
      [encode_ascii (''data: '' @ start_payload)]) = JStr [] \<and>
   getModel (pipeChunks (ascii_platform parse_start_only)
      [encode_ascii (''data: '' @ start_payload @ [CHR 0x0A])]) = JStr ''claude-sonnet-4-6''"
  using message_start_at_flush_loses_model [where parse = parse_start_only, OF parse_start_only]
    parse_start_only
  by blast

section \<open>Reading the accumulator\<close>

text \<open>What a caller can do with the object \<^verbatim>\<open>getUsage\<close> returned: overwrite its fields.\<close>

definition mutate :: "nat \<Rightarrow> (UsageTokens \<Rightarrow> UsageTokens) \<Rightarrow> 'd tracker \<Rightarrow> 'd tracker" where
  "mutate r f t = t\<lparr>heap := (heap t)(r := f (heap t r))\<rparr>"

text \<open>The closure's reference is an allocated one.\<close>

definition allocated :: "'d tracker \<Rightarrow> bool" where
  "allocated t = (usage t < next_ref t)"

lemma allocated_create: "allocated (createUsageTrackingTransform P)"
  by (simp add: allocated_def createUsageTrackingTransform_def)

lemma refs_transform_line:
  "usage (transform_line P line t) = usage t \<and> next_ref (transform_line P line t) = next_ref t"
  by (simp add: transform_line_def Let_def split: option.splits)

lemma refs_flush_line:
  "usage (flush_line P line t) = usage t \<and> next_ref (flush_line P line t) = next_ref t"
  by (simp add: flush_line_def Let_def split: option.splits)

lemma refs_transform_lines:
  "usage (foldl (\<lambda>s line. transform_line P line s) t ls) = usage t \<and>
   next_ref (foldl (\<lambda>s line. transform_line P line s) t ls) = next_ref t"
  by (induction ls arbitrary: t) (simp_all add: refs_transform_line)

lemma refs_flush_lines:
  "usage (foldl (\<lambda>s line. flush_line P line s) t ls) = usage t \<and>
   next_ref (foldl (\<lambda>s line. flush_line P line s) t ls) = next_ref t"
  by (induction ls arbitrary: t) (simp_all add: refs_flush_line)

lemma allocated_transform: "allocated t \<Longrightarrow> allocated (transform P chunk t)"
  by (simp add: allocated_def transform_def Let_def refs_transform_lines split: prod.splits)

lemma allocated_flush: "allocated t \<Longrightarrow> allocated (flush P t)"
  by (simp add: allocated_def flush_def refs_flush_lines)

lemma allocated_getUsage: "allocated t \<Longrightarrow> allocated (snd (getUsage t))"
  by (simp add: allocated_def getUsage_def)

lemma allocated_mutate: "allocated t \<Longrightarrow> allocated (mutate r f t)"
  by (simp add: allocated_def mutate_def)

lemma allocated_pipeChunks: "allocated (pipeChunks P chunks)"
proof -
  have "allocated t \<Longrightarrow> allocated (foldl (\<lambda>t chunk. transform P chunk t) t chunks)" for t
    by (induction chunks arbitrary: t) (simp_all add: allocated_transform)
  then show ?thesis
    by (simp add: pipeChunks_def allocated_flush allocated_create)
qed

text \<open>
  A client of the transform: it writes chunks, closes the stream, calls \<^verbatim>\<open>getUsage\<close> and
  \<^verbatim>\<open>getModel\<close>, and assigns to the fields of a record that an earlier \<^verbatim>\<open>getUsage\<close>
  returned (the \<open>k\<close>-th one it got). The state is the closure with the references the
  client holds, in the order it got them.
\<close>

datatype action =
  Write "byte list"
  | Close
  | GetUsage
  | GetModel
  | Assign nat "UsageTokens \<Rightarrow> UsageTokens"

fun act :: "'d platform \<Rightarrow> action \<Rightarrow> 'd tracker \<times> nat list \<Rightarrow> 'd tracker \<times> nat list" where
  "act P (Write chunk) (t, rs) = (transform P chunk t, rs)"
| "act P Close (t, rs) = (flush P t, rs)"
| "act P GetUsage (t, rs) = (snd (getUsage t), rs @ [fst (getUsage t)])"
| "act P GetModel (t, rs) = (t, rs)"
| "act P (Assign k f) (t, rs) = (if k < length rs then (mutate (rs ! k) f t, rs) else (t, rs))"

definition acts :: "'d platform \<Rightarrow> action list \<Rightarrow> 'd tracker \<times> nat list \<Rightarrow> 'd tracker \<times> nat list" where
  "acts P as st = foldl (\<lambda>s a. act P a s) st as"

definition client :: "'d platform \<Rightarrow> action list \<Rightarrow> 'd tracker \<times> nat list" where
  "client P as = acts P as (createUsageTrackingTransform P, [])"

fun on_stream :: "action \<Rightarrow> bool" where
  "on_stream (Write chunk) = True"
| "on_stream Close = True"
| "on_stream a = False"

fun assigns_to :: "nat \<Rightarrow> action \<Rightarrow> bool" where
  "assigns_to k (Assign j f) = (j = k)"
| "assigns_to k a = False"

text \<open>What the closure keeps: the accumulator's fields, the model, the buffer, the decoder's
  state and what it has emitted.\<close>

definition internal :: "'d tracker \<Rightarrow> UsageTokens \<times> json \<times> string \<times> 'd \<times> byte list list" where
  "internal t = (accumulator t, model t, buffer t, decoder t, enqueued t)"

text \<open>The references the client holds are allocated, differ from the closure's and from
  one another.\<close>

definition held :: "'d tracker \<times> nat list \<Rightarrow> bool" where
  "held st = (case st of (t, rs) \<Rightarrow>
     allocated t \<and> distinct rs \<and> (\<forall>r \<in> set rs. r < next_ref t \<and> r \<noteq> usage t))"

subsection \<open>Writes of the parser stay in the accumulator\<close>

lemma message_start_usage_frame: "b \<noteq> a \<Longrightarrow> message_start_usage u a h b = h b"
  by (simp add: message_start_usage_def Let_def)

lemma message_start_usage_local:
  "h a = g a \<Longrightarrow> message_start_usage u a h a = message_start_usage u a g a"
  by (simp add: message_start_usage_def Let_def)

lemma message_delta_usage_frame: "b \<noteq> a \<Longrightarrow> message_delta_usage u a h b = h b"
  by (simp add: message_delta_usage_def Let_def split: option.splits)

lemma message_delta_usage_local:
  "h a = g a \<Longrightarrow> message_delta_usage u a h a = message_delta_usage u a g a"
  by (simp add: message_delta_usage_def Let_def split: option.splits)

lemma extractUsage_None: "(extractUsage event a h = None) = (event = JNull)"
  by (simp add: extractUsage_def Let_def)

lemma extractUsage_frame:
  "extractUsage event a h = Some h' \<Longrightarrow> b \<noteq> a \<Longrightarrow> h' b = h b"
  by (auto simp: extractUsage_def Let_def message_start_usage_frame message_delta_usage_frame
      split: option.splits if_splits)

lemma extractUsage_local:
  assumes "extractUsage event a h = Some h'" and "extractUsage event a g = Some g'"
    and "h a = g a"
  shows "h' a = g' a"
proof -
  have s: "message_start_usage u a h a = message_start_usage u a g a" for u
    using assms(3) by (rule message_start_usage_local)
  have d: "message_delta_usage u a h a = message_delta_usage u a g a" for u
    using assms(3) by (rule message_delta_usage_local)
  have ds: "message_delta_usage u a (message_start_usage v a h) a
      = message_delta_usage u a (message_start_usage v a g) a" for u v
    using s [of v] by (rule message_delta_usage_local)
  show ?thesis
    using assms s d ds
    by (auto simp: extractUsage_def Let_def split: option.splits if_splits)
qed


definition same_inside :: "'d tracker \<Rightarrow> 'd tracker \<Rightarrow> bool" where
  "same_inside t t' = (usage t = usage t' \<and> internal t = internal t')"

lemma same_inside_refl: "same_inside t t"
  by (simp add: same_inside_def)

lemma same_inside_trans: "same_inside t t' \<Longrightarrow> same_inside t' t'' \<Longrightarrow> same_inside t t''"
  by (simp add: same_inside_def)

lemma same_inside_heap:
  "same_inside t t' \<Longrightarrow> same_inside (t\<lparr>heap := h\<rparr>) (t'\<lparr>heap := h'\<rparr>) = (h (usage t) = h' (usage t))"
  by (auto simp: same_inside_def internal_def accumulator_def)

lemma same_inside_model:
  "same_inside t t' \<Longrightarrow> same_inside (t\<lparr>model := m\<rparr>) (t'\<lparr>model := m\<rparr>)"
  by (auto simp: same_inside_def internal_def accumulator_def)

lemma same_inside_extract:
  assumes s: "same_inside t t'"
  shows "(extractUsage event (usage t) (heap t) = None \<and>
          extractUsage event (usage t') (heap t') = None) \<or>
         (\<exists>h h'. extractUsage event (usage t) (heap t) = Some h \<and>
            extractUsage event (usage t') (heap t') = Some h' \<and>
            same_inside (t\<lparr>heap := h\<rparr>) (t'\<lparr>heap := h'\<rparr>))"
proof (cases "event = JNull")
  case True
  then show ?thesis by (simp add: extractUsage_None)
next
  case False
  from s have u: "usage t' = usage t" and a: "heap t (usage t) = heap t' (usage t)"
    by (auto simp: same_inside_def internal_def accumulator_def)
  from False obtain h where h: "extractUsage event (usage t) (heap t) = Some h"
    using extractUsage_None [of event "usage t" "heap t"] by auto
  from False obtain h' where h': "extractUsage event (usage t) (heap t') = Some h'"
    using extractUsage_None [of event "usage t" "heap t'"] by auto
  have "h (usage t) = h' (usage t)"
    using h h' a by (rule extractUsage_local)
  then have "same_inside (t\<lparr>heap := h\<rparr>) (t'\<lparr>heap := h'\<rparr>)"
    using s by (simp add: same_inside_heap)
  with h h' u show ?thesis by simp
qed

lemma same_inside_transform_line:
  assumes s: "same_inside t t'"
  shows "same_inside (transform_line P line t) (transform_line P line t')"
proof (cases "startsWith line ''data: '' \<and> trim (drop 6 line) \<noteq> ''[DONE]''")
  case False
  with s show ?thesis by (auto simp: transform_line_def Let_def)
next
  case True
  show ?thesis
  proof (cases "JSON_parse P (trim (drop 6 line))")
    case None
    with True s show ?thesis by (simp add: transform_line_def Let_def)
  next
    case (Some event)
    from same_inside_extract [OF s, of event] show ?thesis
    proof (elim disjE exE conjE)
      assume "extractUsage event (usage t) (heap t) = None"
        "extractUsage event (usage t') (heap t') = None"
      with True Some s show ?thesis by (simp add: transform_line_def Let_def)
    next
      fix h h'
      assume e: "extractUsage event (usage t) (heap t) = Some h"
        "extractUsage event (usage t') (heap t') = Some h'"
        and s1: "same_inside (t\<lparr>heap := h\<rparr>) (t'\<lparr>heap := h'\<rparr>)"
      show ?thesis
        using True Some e s1 same_inside_model [OF s1]
        by (simp add: transform_line_def Let_def split: option.splits)
    qed
  qed
qed

lemma same_inside_flush_line:
  assumes s: "same_inside t t'"
  shows "same_inside (flush_line P line t) (flush_line P line t')"
proof (cases "startsWith line ''data: '' \<and> trim (drop 6 line) \<noteq> ''[DONE]''")
  case False
  with s show ?thesis by (auto simp: flush_line_def Let_def)
next
  case True
  show ?thesis
  proof (cases "JSON_parse P (trim (drop 6 line))")
    case None
    with True s show ?thesis by (simp add: flush_line_def Let_def)
  next
    case (Some event)
    from same_inside_extract [OF s, of event] True Some s show ?thesis
      by (auto simp: flush_line_def Let_def)
  qed
qed

lemma same_inside_transform_lines:
  "same_inside t t' \<Longrightarrow>
   same_inside (foldl (\<lambda>s line. transform_line P line s) t ls)
     (foldl (\<lambda>s line. transform_line P line s) t' ls)"
  by (induction ls arbitrary: t t') (simp_all add: same_inside_transform_line)

lemma same_inside_flush_lines:
  "same_inside t t' \<Longrightarrow>
   same_inside (foldl (\<lambda>s line. flush_line P line s) t ls)
     (foldl (\<lambda>s line. flush_line P line s) t' ls)"
  by (induction ls arbitrary: t t') (simp_all add: same_inside_flush_line)

lemma same_inside_fields:
  "same_inside t t' \<Longrightarrow>
   buffer t' = buffer t \<and> decoder t' = decoder t \<and> enqueued t' = enqueued t \<and> model t' = model t"
  by (simp add: same_inside_def internal_def)

lemma same_inside_transform:
  assumes s: "same_inside t t'"
  shows "same_inside (transform P chunk t) (transform P chunk t')"
proof -
  obtain decoded d where dec: "decode P (decoder t) chunk = (decoded, d)"
    by (cases "decode P (decoder t) chunk") auto
  let ?lines = "split_nl (buffer t @ decoded)"
  have "same_inside (t\<lparr>enqueued := enqueued t @ [chunk], decoder := d, buffer := last ?lines\<rparr>)
      (t'\<lparr>enqueued := enqueued t @ [chunk], decoder := d, buffer := last ?lines\<rparr>)"
    using s by (auto simp: same_inside_def internal_def accumulator_def)
  from same_inside_transform_lines [OF this, of P "butlast ?lines"]
  show ?thesis
    using dec same_inside_fields [OF s]
    by (simp add: transform_def Let_def)
qed

lemma same_inside_flush:
  assumes s: "same_inside t t'"
  shows "same_inside (flush P t) (flush P t')"
  using same_inside_flush_lines [OF s, of P "split_nl (buffer t)"] s same_inside_fields [OF s]
  by (simp add: flush_def)

lemma same_inside_getUsage: "allocated t \<Longrightarrow> same_inside (snd (getUsage t)) t"
  by (simp add: same_inside_def internal_def accumulator_def getUsage_def allocated_def)

lemma same_inside_mutate: "r \<noteq> usage t \<Longrightarrow> same_inside (mutate r f t) t"
  by (simp add: same_inside_def internal_def accumulator_def mutate_def)


subsection \<open>Records the client holds are out of the parser's reach\<close>

lemma frame_transform_line:
  "b \<noteq> usage t \<Longrightarrow> heap (transform_line P line t) b = heap t b"
  by (auto simp: transform_line_def Let_def extractUsage_frame split: option.splits)

lemma frame_flush_line:
  "b \<noteq> usage t \<Longrightarrow> heap (flush_line P line t) b = heap t b"
  by (auto simp: flush_line_def Let_def extractUsage_frame split: option.splits)

lemma frame_transform_lines:
  "b \<noteq> usage t \<Longrightarrow> heap (foldl (\<lambda>s line. transform_line P line s) t ls) b = heap t b"
  by (induction ls arbitrary: t) (simp_all add: frame_transform_line refs_transform_line)

lemma frame_flush_lines:
  "b \<noteq> usage t \<Longrightarrow> heap (foldl (\<lambda>s line. flush_line P line s) t ls) b = heap t b"
  by (induction ls arbitrary: t) (simp_all add: frame_flush_line refs_flush_line)

lemma frame_transform: "b \<noteq> usage t \<Longrightarrow> heap (transform P chunk t) b = heap t b"
  by (simp add: transform_def Let_def frame_transform_lines split: prod.splits)

lemma frame_flush: "b \<noteq> usage t \<Longrightarrow> heap (flush P t) b = heap t b"
  by (simp add: flush_def frame_flush_lines)

lemma refs_transform:
  "usage (transform P chunk t) = usage t \<and> next_ref (transform P chunk t) = next_ref t"
  by (simp add: transform_def Let_def refs_transform_lines split: prod.splits)

lemma refs_flush: "usage (flush P t) = usage t \<and> next_ref (flush P t) = next_ref t"
  by (simp add: flush_def refs_flush_lines)

lemma acts_Nil: "acts P [] st = st"
  by (simp add: acts_def)

lemma acts_Cons: "acts P (a # as) st = acts P as (act P a st)"
  by (simp add: acts_def)

lemma acts_append: "acts P (as @ bs) st = acts P bs (acts P as st)"
  by (simp add: acts_def)

lemma held_act:
  assumes "held (t, rs)"
  shows "held (act P a (t, rs))"
proof (cases a)
  case (Write chunk)
  with assms show ?thesis
    by (simp add: held_def allocated_def refs_transform)
next
  case Close
  with assms show ?thesis
    by (simp add: held_def allocated_def refs_flush)
next
  case GetUsage
  with assms show ?thesis
    by (auto simp: held_def allocated_def getUsage_def)
next
  case GetModel
  with assms show ?thesis by simp
next
  case (Assign k f)
  with assms show ?thesis
    by (simp add: held_def allocated_def mutate_def)
qed

lemma held_acts: "held st \<Longrightarrow> held (acts P as st)"
proof (induction as arbitrary: st)
  case Nil
  then show ?case by (simp add: acts_Nil)
next
  case (Cons a as)
  obtain t rs where st: "st = (t, rs)" by (cases st)
  with Cons.prems have "held (act P a st)" by (simp add: held_act)
  from Cons.IH [OF this] show ?case by (simp add: acts_Cons)
qed

lemma held_create: "held (createUsageTrackingTransform P, [])"
  by (simp add: held_def allocated_create)

lemma same_inside_act:
  assumes "held (t, rs)" and "\<not> on_stream a"
  shows "same_inside (fst (act P a (t, rs))) t"
proof (cases a)
  case (Write chunk)
  with assms show ?thesis by simp
next
  case Close
  with assms show ?thesis by simp
next
  case GetUsage
  with assms show ?thesis by (simp add: held_def same_inside_getUsage)
next
  case GetModel
  then show ?thesis by (simp add: same_inside_refl)
next
  case (Assign k f)
  show ?thesis
  proof (cases "k < length rs")
    case True
    with assms(1) have "rs ! k \<noteq> usage t" by (simp add: held_def)
    with True Assign show ?thesis by (simp add: same_inside_mutate)
  next
    case False
    with Assign show ?thesis by (simp add: same_inside_refl)
  qed
qed

lemma same_inside_stream_act:
  assumes "same_inside t t'" and "on_stream a"
  shows "same_inside (fst (act P a (t, rs))) (fst (act P a (t', rs')))"
  using assms by (cases a) (simp_all add: same_inside_transform same_inside_flush)

lemma same_inside_acts:
  "held (t, rs) \<Longrightarrow> same_inside t t' \<Longrightarrow>
   same_inside (fst (acts P as (t, rs))) (fst (acts P (filter on_stream as) (t', rs')))"
proof (induction as arbitrary: t rs t' rs')
  case Nil
  then show ?case by (simp add: acts_Nil)
next
  case (Cons a as)
  obtain t1 rs1 where a1: "act P a (t, rs) = (t1, rs1)" by (cases "act P a (t, rs)")
  have h1: "held (t1, rs1)"
    using held_act [OF Cons.prems(1), of P a] a1 by simp
  show ?case
  proof (cases "on_stream a")
    case True
    obtain t2 rs2 where a2: "act P a (t', rs') = (t2, rs2)" by (cases "act P a (t', rs')")
    have "same_inside t1 t2"
      using same_inside_stream_act [OF Cons.prems(2) True, of P rs rs'] a1 a2 by simp
    from Cons.IH [OF h1 this, of rs2] show ?thesis
      using True a1 a2 by (simp add: acts_Cons)
  next
    case False
    have "same_inside t1 t"
      using same_inside_act [OF Cons.prems(1) False, of P] a1 by simp
    then have "same_inside t1 t'"
      using Cons.prems(2) by (rule same_inside_trans)
    from Cons.IH [OF h1 this, of rs'] show ?thesis
      using False a1 by (simp add: acts_Cons)
  qed
qed

lemma kept_act:
  assumes h: "held (t, rs)" and k: "k < length rs" and n: "\<not> assigns_to k a"
  shows "k < length (snd (act P a (t, rs))) \<and> snd (act P a (t, rs)) ! k = rs ! k \<and>
         heap (fst (act P a (t, rs))) (rs ! k) = heap t (rs ! k)"
proof -
  from h k have r: "rs ! k < next_ref t" "rs ! k \<noteq> usage t"
    by (simp_all add: held_def)
  show ?thesis
  proof (cases a)
    case (Write chunk)
    with k r show ?thesis by (simp add: frame_transform)
  next
    case Close
    with k r show ?thesis by (simp add: frame_flush)
  next
    case GetUsage
    with k r show ?thesis by (simp add: getUsage_def nth_append)
  next
    case GetModel
    with k show ?thesis by simp
  next
    case (Assign j f)
    with n have jk: "j \<noteq> k" by simp
    from h have "distinct rs" by (simp add: held_def)
    with jk k have "j < length rs \<Longrightarrow> rs ! j \<noteq> rs ! k"
      by (simp add: nth_eq_iff_index_eq)
    with Assign k show ?thesis by (auto simp: mutate_def)
  qed
qed

lemma kept_acts:
  "held (t, rs) \<Longrightarrow> k < length rs \<Longrightarrow> (\<forall>a \<in> set as. \<not> assigns_to k a) \<Longrightarrow>
   k < length (snd (acts P as (t, rs))) \<and> snd (acts P as (t, rs)) ! k = rs ! k \<and>
   heap (fst (acts P as (t, rs))) (rs ! k) = heap t (rs ! k)"
proof (induction as arbitrary: t rs)
  case Nil
  then show ?case by (simp add: acts_Nil)
next
  case (Cons a as)
  obtain t1 rs1 where a1: "act P a (t, rs) = (t1, rs1)" by (cases "act P a (t, rs)")
  have h1: "held (t1, rs1)"
    using held_act [OF Cons.prems(1), of P a] a1 by simp
  from Cons.prems(3) have n: "\<not> assigns_to k a" and ns: "\<forall>a \<in> set as. \<not> assigns_to k a"
    by simp_all
  from kept_act [OF Cons.prems(1,2) n, of P] a1
  have s: "k < length rs1" "rs1 ! k = rs ! k" "heap t1 (rs ! k) = heap t (rs ! k)"
    by simp_all
  from Cons.IH [OF h1 s(1) ns] s show ?case
    by (simp add: acts_Cons a1)
qed


lemma held_client: "held (client P as)"
  unfolding client_def by (rule held_acts) (rule held_create)

lemma internal_client:
  "internal (fst (client P as)) = internal (fst (client P (filter on_stream as)))"
  using same_inside_acts [OF held_create [of P] same_inside_refl, where P = P and as = as
      and rs' = "[]"]
  by (simp add: client_def same_inside_def)

lemma results_client:
  "distinct (snd (client P as)) \<and> usage (fst (client P as)) \<notin> set (snd (client P as))"
  using held_client [of P as]
  by (cases "client P as") (auto simp: held_def)

lemma result_client:
  assumes "\<forall>a \<in> set as2. \<not> assigns_to (length (snd (client P as1))) a"
  shows "heap (fst (client P (as1 @ GetUsage # as2)))
           (snd (client P (as1 @ GetUsage # as2)) ! length (snd (client P as1)))
         = accumulator (fst (client P (filter on_stream as1)))"
proof -
  obtain t1 rs1 where c1: "client P as1 = (t1, rs1)" by (cases "client P as1")
  let ?r = "fst (getUsage t1)"
  let ?st = "(snd (getUsage t1), rs1 @ [?r])"
  have h1: "held (t1, rs1)" using held_client [of P as1] c1 by simp
  have h2: "held ?st" using held_act [OF h1, of P GetUsage] by simp
  have run: "client P (as1 @ GetUsage # as2) = acts P as2 ?st"
    using c1 by (simp add: client_def acts_append acts_Cons)
  have k: "length rs1 < length (rs1 @ [?r])" by simp
  from assms c1 have n: "\<forall>a \<in> set as2. \<not> assigns_to (length rs1) a" by simp
  from kept_acts [OF h2 k n, of P]
  have "snd (acts P as2 ?st) ! length rs1 = ?r"
    "heap (fst (acts P as2 ?st)) ?r = heap (snd (getUsage t1)) ?r"
    by simp_all
  moreover have "heap (snd (getUsage t1)) ?r = accumulator t1"
    by (simp add: getUsage_def accumulator_def)
  moreover have "accumulator t1 = accumulator (fst (client P (filter on_stream as1)))"
    using internal_client [of P as1] c1 by (simp add: internal_def)
  ultimately show ?thesis
    using run c1 by simp
qed

lemma two_results:
  assumes "allocated t"
  shows "fst (getUsage (snd (getUsage t))) \<noteq> fst (getUsage t)"
    and "heap (mutate (fst (getUsage t)) f (snd (getUsage (snd (getUsage t)))))
           (fst (getUsage (snd (getUsage t)))) = accumulator t"
  using assms
  by (simp_all add: allocated_def getUsage_def accumulator_def mutate_def)

text \<open>
  C10. \<^verbatim>\<open>getUsage\<close> returns a new object with the accumulator's fields: its reference
  differs from the accumulator's and from that of every other result, so two results never
  share a record. A call changes neither the accumulator nor the model; whatever the caller
  writes into a returned record, the accumulator, the model and the value of every other
  result, earlier or later, stay as they were. For a client that writes chunks, closes,
  reads and assigns in any order: the closure's internal state is what the writes and the
  close alone produce; the references it got are pairwise distinct and none is the
  accumulator's; and a result keeps the value the accumulator had when it was returned
  until the client assigns to that very record. \<^verbatim>\<open>getModel\<close> only reads.
\<close>

theorem getUsage_returns_fresh_copy:
  assumes "allocated t"
  shows "fst (getUsage t) \<noteq> usage t \<and>
    heap (snd (getUsage t)) (fst (getUsage t)) = accumulator t \<and>
    accumulator (snd (getUsage t)) = accumulator t \<and>
    getModel (snd (getUsage t)) = getModel t \<and>
    accumulator (mutate (fst (getUsage t)) f (snd (getUsage t))) = accumulator t \<and>
    getModel (mutate (fst (getUsage t)) f (snd (getUsage t))) = getModel t \<and>
    heap (snd (getUsage (mutate (fst (getUsage t)) f (snd (getUsage t)))))
         (fst (getUsage (mutate (fst (getUsage t)) f (snd (getUsage t))))) = accumulator t \<and>
    fst (getUsage (snd (getUsage t))) \<noteq> fst (getUsage t) \<and>
    heap (mutate (fst (getUsage t)) f (snd (getUsage (snd (getUsage t)))))
         (fst (getUsage (snd (getUsage t)))) = accumulator t \<and>
    internal (fst (client P as)) = internal (fst (client P (filter on_stream as))) \<and>
    distinct (snd (client P as)) \<and>
    usage (fst (client P as)) \<notin> set (snd (client P as)) \<and>
    ((\<forall>a \<in> set as2. \<not> assigns_to (length (snd (client P as1))) a) \<longrightarrow>
       heap (fst (client P (as1 @ GetUsage # as2)))
            (snd (client P (as1 @ GetUsage # as2)) ! length (snd (client P as1)))
         = accumulator (fst (client P (filter on_stream as1))))"
proof -
  have single: "fst (getUsage t) \<noteq> usage t \<and>
    heap (snd (getUsage t)) (fst (getUsage t)) = accumulator t \<and>
    accumulator (snd (getUsage t)) = accumulator t \<and>
    getModel (snd (getUsage t)) = getModel t \<and>
    accumulator (mutate (fst (getUsage t)) f (snd (getUsage t))) = accumulator t \<and>
    getModel (mutate (fst (getUsage t)) f (snd (getUsage t))) = getModel t \<and>
    heap (snd (getUsage (mutate (fst (getUsage t)) f (snd (getUsage t)))))
         (fst (getUsage (mutate (fst (getUsage t)) f (snd (getUsage t))))) = accumulator t"
    using assms
    by (simp add: allocated_def getUsage_def accumulator_def getModel_def mutate_def)
  show ?thesis
    using single two_results(1) [OF assms] two_results(2) [OF assms, where f = f]
      internal_client [of P as] results_client [of P as]
      result_client [where P = P and ?as1.0 = as1 and ?as2.0 = as2]
    by blast
qed

definition start_chunk :: "byte list" where
  "start_chunk = encode_ascii (''data: '' @ start_payload)"

definition readings :: "action list" where
  "readings = [Write start_chunk, Close, GetUsage]"

definition meddling :: "action list" where
  "meddling = [Assign 0 (\<lambda>u. u\<lparr>inputTokens := JNum 7\<rparr>), GetUsage]"

lemma client_stream:
  "fst (client P [Write chunk, Close]) = pipeChunks P [chunk]"
  by (simp add: client_def acts_def pipeChunks_def)

lemma results_length:
  "length (snd (acts P as st)) = length (snd st) + length (filter (\<lambda>a. a = GetUsage) as)"
proof (induction as arbitrary: st)
  case Nil
  then show ?case by (simp add: acts_Nil)
next
  case (Cons a as)
  obtain t rs where st: "st = (t, rs)" by (cases st)
  show ?case
    unfolding acts_Cons Cons.IH st by (cases a) simp_all
qed

lemma readings_length: "length (snd (client (ascii_platform parse_start_only) readings)) = 1"
  by (simp add: client_def results_length readings_def)

theorem getUsage_returns_fresh_copy_witness:
  "allocated (pipeChunks (ascii_platform parse_start_only) [start_chunk]) \<and>
   filter (assigns_to (length (snd (client (ascii_platform parse_start_only) readings))))
     meddling = [] \<and>
   inputTokens
     (heap (fst (client (ascii_platform parse_start_only) (readings @ GetUsage # meddling)))
        (snd (client (ascii_platform parse_start_only) (readings @ GetUsage # meddling)) ! 1))
     = JNum 42 \<and>
   distinct (snd (client (ascii_platform parse_start_only) (readings @ GetUsage # meddling)))"
proof -
  let ?P = "ascii_platform parse_start_only"
  have n: "\<forall>a \<in> set meddling. \<not> assigns_to (length (snd (client ?P readings))) a"
    by (simp add: readings_length meddling_def)
  have f: "filter on_stream readings = [Write start_chunk, Close]"
    by (simp add: readings_def)
  have v: "inputTokens (accumulator (fst (client ?P (filter on_stream readings)))) = JNum 42"
    unfolding f client_stream start_chunk_def
    by (rule start_at_flush(2) [where parse = parse_start_only, OF parse_start_only])
  from getUsage_returns_fresh_copy
         [OF allocated_pipeChunks [of ?P "[start_chunk]"], where P = ?P
            and as = "readings @ GetUsage # meddling" and ?as1.0 = readings and ?as2.0 = meddling]
       n v allocated_pipeChunks [of ?P "[start_chunk]"]
  show ?thesis
    by (simp add: readings_length meddling_def)
qed


section \<open>Token verification (auth)\<close>

text \<open>A thrown \<^verbatim>\<open>Error\<close>, with its message.\<close>

datatype error = Error string

record JwtPayload =
  userId :: string
  claims :: "string \<rightharpoonup> json"

text \<open>\<^verbatim>\<open>v ?? w\<close>.\<close>

definition coalesce :: "json option \<Rightarrow> json option \<Rightarrow> json option" where
  "coalesce v w = (if nullish v then w else v)"

text \<open>
  \<^verbatim>\<open>verifyToken\<close>. The signature check \<^verbatim>\<open>jose.jwtVerify(token, secret)\<close> is the library's: it
  is an argument, which throws (\<open>Inl\<close>) or returns the properties of the payload object.
  The result \<^verbatim>\<open>{ ...payload, userId }\<close> keeps every property of the payload in \<open>claims\<close>.
\<close>

definition verifyToken ::
  "(string \<Rightarrow> error + (string \<times> json) list) \<Rightarrow> string \<Rightarrow> error + JwtPayload" where
  "verifyToken jwtVerify token =
     (case jwtVerify token of
        Inl e \<Rightarrow> Inl e
      | Inr payload \<Rightarrow>
          (case coalesce (coalesce (map_of payload ''userId'') (map_of payload ''sub''))
                  (map_of payload ''id'') of
             Some (JStr s) \<Rightarrow>
               Inr \<lparr>userId = s, claims = (map_of payload)(''userId'' \<mapsto> JStr s)\<rparr>
           | _ \<Rightarrow> Inl (Error ''JWT missing userId/sub/id claim'')))"

text \<open>The specification's words: the value of the first of \<^verbatim>\<open>userId\<close>, \<^verbatim>\<open>sub\<close>, \<^verbatim>\<open>id\<close> that is
  present (neither absent nor \<^verbatim>\<open>null\<close>).\<close>

definition first_present_claim :: "(string \<times> json) list \<Rightarrow> json option" where
  "first_present_claim payload =
     (case filter (\<lambda>k. \<not> nullish (map_of payload k)) [''userId'', ''sub'', ''id''] of
        [] \<Rightarrow> None
      | k # _ \<Rightarrow> map_of payload k)"

lemma first_present_None:
  "first_present_claim payload = None \<Longrightarrow>
   nullish (coalesce (coalesce (map_of payload ''userId'') (map_of payload ''sub''))
      (map_of payload ''id''))"
  by (auto simp: coalesce_def first_present_claim_def split: if_splits)

lemma first_present_Some:
  "first_present_claim payload = Some v \<Longrightarrow>
   coalesce (coalesce (map_of payload ''userId'') (map_of payload ''sub''))
      (map_of payload ''id'') = Some v"
  by (auto simp: coalesce_def first_present_claim_def split: if_splits)

text \<open>
  C9, as the claim states it, fails: a verified payload \<^verbatim>\<open>{"userId": ""}\<close> gives a principal
  whose \<open>userId\<close> is the empty string.
\<close>

theorem verifyToken_empty_userId_counterexample:
  "\<exists>p. verifyToken (\<lambda>token. Inr [(''userId'', JStr [])]) ''t'' = Inr p \<and> userId p = []"
  by (simp add: verifyToken_def coalesce_def)

text \<open>
  C9, amended. For a credential whose signature verifies: when the first present of the
  claims \<^verbatim>\<open>userId\<close>, \<^verbatim>\<open>sub\<close>, \<^verbatim>\<open>id\<close> is a string (empty or not), \<^verbatim>\<open>verifyToken\<close> returns a
  principal with that string as \<open>userId\<close>; otherwise it throws the missing-identifier
  error, in particular when none of the three is a string.
\<close>

theorem verifyToken_userId_first_present:
  assumes "jwtVerify token = Inr payload"
  shows "(\<forall>s. first_present_claim payload = Some (JStr s) \<longrightarrow>
            verifyToken jwtVerify token =
              Inr \<lparr>userId = s, claims = (map_of payload)(''userId'' \<mapsto> JStr s)\<rparr>) \<and>
         ((\<forall>s. first_present_claim payload \<noteq> Some (JStr s)) \<longrightarrow>
            verifyToken jwtVerify token = Inl (Error ''JWT missing userId/sub/id claim'')) \<and>
         ((\<forall>k \<in> set [''userId'', ''sub'', ''id'']. \<forall>s. map_of payload k \<noteq> Some (JStr s)) \<longrightarrow>
            verifyToken jwtVerify token = Inl (Error ''JWT missing userId/sub/id claim''))"
proof (intro conjI allI impI)
  fix s assume "first_present_claim payload = Some (JStr s)"
  then show "verifyToken jwtVerify token =
      Inr \<lparr>userId = s, claims = (map_of payload)(''userId'' \<mapsto> JStr s)\<rparr>"
    using assms by (simp add: verifyToken_def first_present_Some)
next
  assume no: "\<forall>s. first_present_claim payload \<noteq> Some (JStr s)"
  show "verifyToken jwtVerify token = Inl (Error ''JWT missing userId/sub/id claim'')"
  proof (cases "first_present_claim payload")
    case None
    from first_present_None [OF None] show ?thesis
      using assms
      by (cases "coalesce (coalesce (map_of payload ''userId'') (map_of payload ''sub''))
            (map_of payload ''id'')" rule: nullish.cases)
         (simp_all add: verifyToken_def)
  next
    case (Some v)
    with no have "\<forall>s. v \<noteq> JStr s" by simp
    then show ?thesis
      using assms first_present_Some [OF Some]
      by (cases v) (simp_all add: verifyToken_def)
  qed
next
  assume none: "\<forall>k \<in> set [''userId'', ''sub'', ''id'']. \<forall>s. map_of payload k \<noteq> Some (JStr s)"
  have "coalesce (coalesce (map_of payload ''userId'') (map_of payload ''sub''))
          (map_of payload ''id'') \<noteq> Some (JStr s)" for s
    using none by (auto simp: coalesce_def)
  then show "verifyToken jwtVerify token = Inl (Error ''JWT missing userId/sub/id claim'')"
    using assms
    by (auto simp: verifyToken_def split: option.splits json.splits)
qed

theorem verifyToken_userId_first_present_witness:
  "verifyToken (\<lambda>token. Inr [(''userId'', JNull), (''sub'', JStr ''user-1'')]) ''t'' =
     Inr \<lparr>userId = ''user-1'',
          claims = (map_of [(''userId'', JNull), (''sub'', JStr ''user-1'')])
                      (''userId'' \<mapsto> JStr ''user-1'')\<rparr> \<and>
   verifyToken (\<lambda>token. Inr [(''userId'', JNum 7), (''sub'', JStr ''user-1'')]) ''t'' =
     Inl (Error ''JWT missing userId/sub/id claim'') \<and>
   verifyToken (\<lambda>token. Inr [(''name'', JStr ''x'')]) ''t'' =
     Inl (Error ''JWT missing userId/sub/id claim'')"
proof -
  have a: "first_present_claim [(''userId'', JNull), (''sub'', JStr ''user-1'')] = Some (JStr ''user-1'')"
    by (simp add: first_present_claim_def)
  have b: "\<forall>s. first_present_claim [(''userId'', JNum 7), (''sub'', JStr ''user-1'')] \<noteq> Some (JStr s)"
    by (simp add: first_present_claim_def)
  have c: "\<forall>k \<in> set [''userId'', ''sub'', ''id'']. \<forall>s. map_of [(''name'', JStr ''x'')] k \<noteq> Some (JStr s)"
    by simp
  show ?thesis
    using verifyToken_userId_first_present
            [of "\<lambda>token. Inr [(''userId'', JNull), (''sub'', JStr ''user-1'')]" "''t''"
                "[(''userId'', JNull), (''sub'', JStr ''user-1'')]"]
          verifyToken_userId_first_present
            [of "\<lambda>token. Inr [(''userId'', JNum 7), (''sub'', JStr ''user-1'')]" "''t''"
                "[(''userId'', JNum 7), (''sub'', JStr ''user-1'')]"]
          verifyToken_userId_first_present
            [of "\<lambda>token. Inr [(''name'', JStr ''x'')]" "''t''" "[(''name'', JStr ''x'')]"]
          a b c
    by blast
qed


section \<open>The balance cache (balance)\<close>

text \<open>
  What \<^verbatim>\<open>fetch\<close> of the billing server's balance endpoint and \<^verbatim>\<open>res.json()\<close> give: the call
  or the parse throws, the status is not 2xx, or a body arrives. The body's fields are
  optional numbers.
\<close>

record balance_body =
  body_balance :: "real option"
  body_freeTokens :: "real option"
  body_totalAvailable :: "real option"
  body_claudeBalance :: "real option"

datatype fetched = Threw | NotOk nat | Body balance_body

definition CACHE_TTL_MS :: int where
  "CACHE_TTL_MS = 2 * 60 * 1000"

definition STALE_CACHE_TTL_MS :: int where
  "STALE_CACHE_TTL_MS = 10 * 60 * 1000"

text \<open>\<^verbatim>\<open>x ?? 0\<close> on an optional number.\<close>

definition or_zero :: "real option \<Rightarrow> real" where
  "or_zero x = (case x of None \<Rightarrow> 0 | Some v \<Rightarrow> v)"

subsection \<open>The revision that caches \<^verbatim>\<open>balance\<close> and \<^verbatim>\<open>freeTokens\<close>\<close>

record CacheEntry =
  balance :: real
  freeTokens :: real
  expiry :: int

record BalanceResult =
  balance :: real
  freeTokens :: real
  ok :: bool
  serviceUnavailable :: "bool option"

definition fallbackToStaleCache :: "string \<Rightarrow> CacheEntry option \<Rightarrow> int \<Rightarrow> BalanceResult" where
  "fallbackToStaleCache user cached now =
     (case cached of
        Some c \<Rightarrow>
          if CacheEntry.expiry c > now - STALE_CACHE_TTL_MS
          then \<lparr>balance = CacheEntry.balance c, freeTokens = CacheEntry.freeTokens c,
                ok = (CacheEntry.balance c > 0 \<or> CacheEntry.freeTokens c > 0),
                serviceUnavailable = None\<rparr>
          else \<lparr>balance = 0, freeTokens = 0, ok = False, serviceUnavailable = Some True\<rparr>
      | None \<Rightarrow> \<lparr>balance = 0, freeTokens = 0, ok = False, serviceUnavailable = Some True\<rparr>)"

text \<open>\<^verbatim>\<open>checkBalance(userId, token)\<close> at time \<open>now\<close>, with the cache before the call; \<open>fetch\<close>
  answers a request made with the given bearer token. The result comes with the cache
  after the call.\<close>

definition checkBalance ::
  "int \<Rightarrow> (string \<Rightarrow> fetched) \<Rightarrow> (string \<rightharpoonup> CacheEntry) \<Rightarrow> string \<Rightarrow> string
     \<Rightarrow> BalanceResult \<times> (string \<rightharpoonup> CacheEntry)" where
  "checkBalance now fetch cache user token =
     (let cached = cache user;
          fresh = (case cached of Some c \<Rightarrow> CacheEntry.expiry c > now | None \<Rightarrow> False)
      in
        if fresh then
          (case cached of
             Some c \<Rightarrow>
               (\<lparr>balance = CacheEntry.balance c, freeTokens = CacheEntry.freeTokens c,
                 ok = (CacheEntry.balance c > 0 \<or> CacheEntry.freeTokens c > 0),
                 serviceUnavailable = None\<rparr>, cache)
           | None \<Rightarrow> (fallbackToStaleCache user cached now, cache))
        else
          (case fetch token of
             Threw \<Rightarrow> (fallbackToStaleCache user cached now, cache)
           | NotOk status \<Rightarrow> (fallbackToStaleCache user cached now, cache)
           | Body data \<Rightarrow>
               (let b = or_zero (body_balance data); f = or_zero (body_freeTokens data) in
                (\<lparr>balance = b, freeTokens = f, ok = (b > 0 \<or> f > 0), serviceUnavailable = None\<rparr>,
                 cache(user \<mapsto> \<lparr>CacheEntry.balance = b, CacheEntry.freeTokens = f,
                                 expiry = now + CACHE_TTL_MS\<rparr>)))))"

definition invalidateBalanceCache ::
  "int \<Rightarrow> string \<Rightarrow> (string \<rightharpoonup> CacheEntry) \<Rightarrow> (string \<rightharpoonup> CacheEntry)" where
  "invalidateBalanceCache now user cache =
     (case cache user of
        Some entry \<Rightarrow> cache(user \<mapsto> entry\<lparr>CacheEntry.expiry := now\<rparr>)
      | None \<Rightarrow> cache)"

subsection \<open>The revision that caches \<^verbatim>\<open>balance\<close>, \<^verbatim>\<open>totalAvailable\<close> and \<^verbatim>\<open>claudeBalance\<close>\<close>

record CacheEntry2 =
  balance :: real
  totalAvailable :: real
  claudeBalance :: real
  expiry :: int

record BalanceResult2 =
  balance :: real
  totalAvailable :: real
  ok :: bool
  serviceUnavailable :: "bool option"

definition fallbackToStaleCache2 :: "string \<Rightarrow> CacheEntry2 option \<Rightarrow> int \<Rightarrow> BalanceResult2" where
  "fallbackToStaleCache2 user cached now =
     (case cached of
        Some c \<Rightarrow>
          if CacheEntry2.expiry c > now - STALE_CACHE_TTL_MS
          then \<lparr>balance = CacheEntry2.balance c, totalAvailable = CacheEntry2.totalAvailable c,
                ok = (claudeBalance c > 0 \<or> CacheEntry2.totalAvailable c > 0),
                serviceUnavailable = None\<rparr>
          else \<lparr>balance = 0, totalAvailable = 0, ok = False, serviceUnavailable = Some True\<rparr>
      | None \<Rightarrow> \<lparr>balance = 0, totalAvailable = 0, ok = False, serviceUnavailable = Some True\<rparr>)"

definition checkBalance2 ::
  "int \<Rightarrow> (string \<Rightarrow> fetched) \<Rightarrow> (string \<rightharpoonup> CacheEntry2) \<Rightarrow> string \<Rightarrow> string
     \<Rightarrow> BalanceResult2 \<times> (string \<rightharpoonup> CacheEntry2)" where
  "checkBalance2 now fetch cache user token =
     (let cached = cache user;
          fresh = (case cached of Some c \<Rightarrow> CacheEntry2.expiry c > now | None \<Rightarrow> False)
      in
        if fresh then
          (case cached of
             Some c \<Rightarrow>
               (\<lparr>balance = CacheEntry2.balance c, totalAvailable = CacheEntry2.totalAvailable c,
                 ok = (claudeBalance c > 0 \<or> CacheEntry2.totalAvailable c > 0),
                 serviceUnavailable = None\<rparr>, cache)
           | None \<Rightarrow> (fallbackToStaleCache2 user cached now, cache))
        else
          (case fetch token of
             Threw \<Rightarrow> (fallbackToStaleCache2 user cached now, cache)
           | NotOk status \<Rightarrow> (fallbackToStaleCache2 user cached now, cache)
           | Body data \<Rightarrow>
               (let b = or_zero (body_balance data); t = or_zero (body_totalAvailable data);
                    c = or_zero (body_claudeBalance data) in
                (\<lparr>balance = b, totalAvailable = t, ok = (c > 0 \<or> t > 0), serviceUnavailable = None\<rparr>,
                 cache(user \<mapsto> \<lparr>CacheEntry2.balance = b, CacheEntry2.totalAvailable = t,
                                 claudeBalance = c, expiry = now + CACHE_TTL_MS\<rparr>)))))"

subsection \<open>The usable predicate\<close>

text \<open>The specification's words: \<^verbatim>\<open>claudeBalance > 0 OR freeTokens > 0\<close>, each missing field
  read as 0, on the snapshot the billing server sent.\<close>

definition usable_spec :: "balance_body \<Rightarrow> bool" where
  "usable_spec data = (or_zero (body_claudeBalance data) > 0 \<or> or_zero (body_freeTokens data) > 0)"

definition paid_only :: balance_body where
  "paid_only = \<lparr>body_balance = Some 10.5, body_freeTokens = Some 0,
     body_totalAvailable = None, body_claudeBalance = None\<rparr>"

definition allowance_only :: balance_body where
  "allowance_only = \<lparr>body_balance = Some 0, body_freeTokens = None,
     body_totalAvailable = Some 300000, body_claudeBalance = Some 0\<rparr>"

text \<open>
  C4, as the claim states it, fails in both revisions. A first fetch answering
  \<^verbatim>\<open>{balance: 10.5, freeTokens: 0}\<close> is accepted by the first revision, and one answering
  \<^verbatim>\<open>{balance: 0, totalAvailable: 300000, claudeBalance: 0}\<close> by the second, with no
  \<open>serviceUnavailable\<close>; on neither snapshot is \<^verbatim>\<open>claudeBalance > 0 OR freeTokens > 0\<close> true.
\<close>

theorem checkBalance_usable_counterexample:
  "BalanceResult.serviceUnavailable
      (fst (checkBalance 0 (\<lambda>token. Body paid_only) Map.empty ''user-1'' ''token-1'')) = None \<and>
   BalanceResult.ok
      (fst (checkBalance 0 (\<lambda>token. Body paid_only) Map.empty ''user-1'' ''token-1'')) \<and>
   \<not> usable_spec paid_only \<and>
   BalanceResult2.serviceUnavailable
      (fst (checkBalance2 0 (\<lambda>token. Body allowance_only) Map.empty ''user-freeonly'' ''token-2'')) = None \<and>
   BalanceResult2.ok
      (fst (checkBalance2 0 (\<lambda>token. Body allowance_only) Map.empty ''user-freeonly'' ''token-2'')) \<and>
   \<not> usable_spec allowance_only"
  by (simp add: checkBalance_def checkBalance2_def usable_spec_def paid_only_def
      allowance_only_def or_zero_def Let_def)


lemma fallbackToStaleCache_cases:
  "(BalanceResult.serviceUnavailable (fallbackToStaleCache user cached now) = Some True \<and>
    \<not> BalanceResult.ok (fallbackToStaleCache user cached now) \<and>
    BalanceResult.balance (fallbackToStaleCache user cached now) = 0 \<and>
    BalanceResult.freeTokens (fallbackToStaleCache user cached now) = 0) \<or>
   (\<exists>c. cached = Some c \<and>
      fallbackToStaleCache user cached now =
        \<lparr>BalanceResult.balance = CacheEntry.balance c,
         BalanceResult.freeTokens = CacheEntry.freeTokens c,
         BalanceResult.ok = (CacheEntry.balance c > 0 \<or> CacheEntry.freeTokens c > 0),
         BalanceResult.serviceUnavailable = None\<rparr>)"
  by (cases cached) (simp_all add: fallbackToStaleCache_def)

lemma fallbackToStaleCache2_cases:
  "(BalanceResult2.serviceUnavailable (fallbackToStaleCache2 user cached now) = Some True \<and>
    \<not> BalanceResult2.ok (fallbackToStaleCache2 user cached now)) \<or>
   (\<exists>c. cached = Some c \<and>
      fallbackToStaleCache2 user cached now =
        \<lparr>balance = CacheEntry2.balance c, totalAvailable = CacheEntry2.totalAvailable c,
         ok = (claudeBalance c > 0 \<or> CacheEntry2.totalAvailable c > 0),
         serviceUnavailable = None\<rparr>)"
  by (cases cached) (simp_all add: fallbackToStaleCache2_def)

lemma checkBalance_ok_fields:
  "BalanceResult.ok (fst (checkBalance now fetch cache user token)) =
     (BalanceResult.balance (fst (checkBalance now fetch cache user token)) > 0 \<or>
      BalanceResult.freeTokens (fst (checkBalance now fetch cache user token)) > 0)"
proof -
  have fb: "BalanceResult.ok (fallbackToStaleCache user cached now) =
     (BalanceResult.balance (fallbackToStaleCache user cached now) > 0 \<or>
      BalanceResult.freeTokens (fallbackToStaleCache user cached now) > 0)" for cached
    using fallbackToStaleCache_cases [of user cached now] by auto
  show ?thesis
    by (simp add: checkBalance_def Let_def fb split: option.splits fetched.splits)
qed

lemma checkBalance_snapshot:
  assumes "BalanceResult.serviceUnavailable (fst (checkBalance now fetch cache user token)) \<noteq> Some True"
  shows "\<exists>e. (cache user = Some e \<or> snd (checkBalance now fetch cache user token) user = Some e) \<and>
     BalanceResult.balance (fst (checkBalance now fetch cache user token)) = CacheEntry.balance e \<and>
     BalanceResult.freeTokens (fst (checkBalance now fetch cache user token)) = CacheEntry.freeTokens e \<and>
     BalanceResult.ok (fst (checkBalance now fetch cache user token)) =
       (CacheEntry.balance e > 0 \<or> CacheEntry.freeTokens e > 0)"
proof (cases "case cache user of Some c \<Rightarrow> CacheEntry.expiry c > now | None \<Rightarrow> False")
  case True
  then show ?thesis
    by (auto simp: checkBalance_def Let_def split: option.splits)
next
  case False
  show ?thesis
  proof (cases "fetch token")
    case (Body data)
    with False show ?thesis
      by (force simp: checkBalance_def Let_def)
  next
    case Threw
    with False have r: "fst (checkBalance now fetch cache user token) =
        fallbackToStaleCache user (cache user) now"
      by (simp add: checkBalance_def Let_def)
    from assms fallbackToStaleCache_cases [of user "cache user" now] show ?thesis
      unfolding r by auto
  next
    case (NotOk status)
    with False have r: "fst (checkBalance now fetch cache user token) =
        fallbackToStaleCache user (cache user) now"
      by (simp add: checkBalance_def Let_def)
    from assms fallbackToStaleCache_cases [of user "cache user" now] show ?thesis
      unfolding r by auto
  qed
qed

lemma checkBalance2_snapshot:
  assumes "BalanceResult2.serviceUnavailable (fst (checkBalance2 now fetch cache user token)) \<noteq> Some True"
  shows "\<exists>e. (cache user = Some e \<or> snd (checkBalance2 now fetch cache user token) user = Some e) \<and>
     BalanceResult2.balance (fst (checkBalance2 now fetch cache user token)) = CacheEntry2.balance e \<and>
     BalanceResult2.totalAvailable (fst (checkBalance2 now fetch cache user token)) =
       CacheEntry2.totalAvailable e \<and>
     BalanceResult2.ok (fst (checkBalance2 now fetch cache user token)) =
       (claudeBalance e > 0 \<or> CacheEntry2.totalAvailable e > 0)"
proof (cases "case cache user of Some c \<Rightarrow> CacheEntry2.expiry c > now | None \<Rightarrow> False")
  case True
  then show ?thesis
    by (auto simp: checkBalance2_def Let_def split: option.splits)
next
  case False
  show ?thesis
  proof (cases "fetch token")
    case (Body data)
    with False show ?thesis
      by (force simp: checkBalance2_def Let_def)
  next
    case Threw
    with False have r: "fst (checkBalance2 now fetch cache user token) =
        fallbackToStaleCache2 user (cache user) now"
      by (simp add: checkBalance2_def Let_def)
    from assms fallbackToStaleCache2_cases [of user "cache user" now] show ?thesis
      unfolding r by auto
  next
    case (NotOk status)
    with False have r: "fst (checkBalance2 now fetch cache user token) =
        fallbackToStaleCache2 user (cache user) now"
      by (simp add: checkBalance2_def Let_def)
    from assms fallbackToStaleCache2_cases [of user "cache user" now] show ?thesis
      unfolding r by auto
  qed
qed

text \<open>
  C4, amended. Whenever \<^verbatim>\<open>checkBalance\<close> returns without \<open>serviceUnavailable\<close> (fresh hit,
  2xx fetch, or stale entry within grace), the result's balance fields are those of a
  snapshot (the cached entry, or the entry the call stored) and \<open>ok\<close> is, in the revision
  that caches \<open>balance\<close> and \<open>freeTokens\<close>, \<^verbatim>\<open>balance > 0 OR freeTokens > 0\<close> on that snapshot,
  and in the revision that caches \<open>claudeBalance\<close> and \<open>totalAvailable\<close>,
  \<^verbatim>\<open>claudeBalance > 0 OR totalAvailable > 0\<close> on it.
\<close>

theorem checkBalance_ok_is_usable:
  "(BalanceResult.serviceUnavailable (fst (checkBalance now fetch cache user token)) \<noteq> Some True \<longrightarrow>
     (\<exists>e. (cache user = Some e \<or> snd (checkBalance now fetch cache user token) user = Some e) \<and>
        BalanceResult.balance (fst (checkBalance now fetch cache user token)) = CacheEntry.balance e \<and>
        BalanceResult.freeTokens (fst (checkBalance now fetch cache user token)) =
          CacheEntry.freeTokens e \<and>
        BalanceResult.ok (fst (checkBalance now fetch cache user token)) =
          (CacheEntry.balance e > 0 \<or> CacheEntry.freeTokens e > 0))) \<and>
   (BalanceResult2.serviceUnavailable (fst (checkBalance2 now fetch cache2 user token)) \<noteq> Some True \<longrightarrow>
     (\<exists>e. (cache2 user = Some e \<or> snd (checkBalance2 now fetch cache2 user token) user = Some e) \<and>
        BalanceResult2.balance (fst (checkBalance2 now fetch cache2 user token)) =
          CacheEntry2.balance e \<and>
        BalanceResult2.totalAvailable (fst (checkBalance2 now fetch cache2 user token)) =
          CacheEntry2.totalAvailable e \<and>
        BalanceResult2.ok (fst (checkBalance2 now fetch cache2 user token)) =
          (claudeBalance e > 0 \<or> CacheEntry2.totalAvailable e > 0)))"
  using checkBalance_snapshot [of now fetch cache user token]
    checkBalance2_snapshot [of now fetch cache2 user token]
  by blast


definition stale_entry :: CacheEntry2 where
  "stale_entry = \<lparr>CacheEntry2.balance = 20, CacheEntry2.totalAvailable = 500,
     claudeBalance = 3, expiry = - 60000\<rparr>"

theorem checkBalance_ok_is_usable_witness:
  "BalanceResult.serviceUnavailable
     (fst (checkBalance 0 (\<lambda>token. Body paid_only) Map.empty ''user-1'' ''token-1'')) \<noteq> Some True \<and>
   (\<exists>e. (Map.empty ''user-1'' = Some e \<or>
          snd (checkBalance 0 (\<lambda>token. Body paid_only) Map.empty ''user-1'' ''token-1'') ''user-1''
            = Some e) \<and>
      BalanceResult.balance
        (fst (checkBalance 0 (\<lambda>token. Body paid_only) Map.empty ''user-1'' ''token-1''))
          = CacheEntry.balance e \<and>
      BalanceResult.freeTokens
        (fst (checkBalance 0 (\<lambda>token. Body paid_only) Map.empty ''user-1'' ''token-1''))
          = CacheEntry.freeTokens e \<and>
      BalanceResult.ok
        (fst (checkBalance 0 (\<lambda>token. Body paid_only) Map.empty ''user-1'' ''token-1''))
          = (CacheEntry.balance e > 0 \<or> CacheEntry.freeTokens e > 0)) \<and>
   BalanceResult2.serviceUnavailable
     (fst (checkBalance2 0 (\<lambda>token. NotOk 503) [''user-stale'' \<mapsto> stale_entry]
        ''user-stale'' ''token-7'')) \<noteq> Some True \<and>
   BalanceResult2.ok
     (fst (checkBalance2 0 (\<lambda>token. NotOk 503) [''user-stale'' \<mapsto> stale_entry]
        ''user-stale'' ''token-7''))"
proof -
  have h1: "BalanceResult.serviceUnavailable
     (fst (checkBalance 0 (\<lambda>token. Body paid_only) Map.empty ''user-1'' ''token-1'')) \<noteq> Some True"
    by (simp add: checkBalance_def Let_def)
  have h2: "BalanceResult2.serviceUnavailable
     (fst (checkBalance2 0 (\<lambda>token. NotOk 503) [''user-stale'' \<mapsto> stale_entry]
        ''user-stale'' ''token-7'')) \<noteq> Some True"
    by (simp add: checkBalance2_def Let_def fallbackToStaleCache2_def stale_entry_def
        STALE_CACHE_TTL_MS_def)
  have s2: "snd (checkBalance2 0 (\<lambda>token. NotOk 503) [''user-stale'' \<mapsto> stale_entry]
        ''user-stale'' ''token-7'') = [''user-stale'' \<mapsto> stale_entry]"
    by (simp add: checkBalance2_def Let_def stale_entry_def)
  have u2: "claudeBalance stale_entry > 0 \<or> CacheEntry2.totalAvailable stale_entry > 0"
    by (simp add: stale_entry_def)
  have e2: "\<exists>e. ([''user-stale'' \<mapsto> stale_entry] ''user-stale'' = Some e \<or>
          snd (checkBalance2 0 (\<lambda>token. NotOk 503) [''user-stale'' \<mapsto> stale_entry]
                 ''user-stale'' ''token-7'') ''user-stale'' = Some e) \<and>
        BalanceResult2.balance
          (fst (checkBalance2 0 (\<lambda>token. NotOk 503) [''user-stale'' \<mapsto> stale_entry]
                 ''user-stale'' ''token-7'')) = CacheEntry2.balance e \<and>
        BalanceResult2.totalAvailable
          (fst (checkBalance2 0 (\<lambda>token. NotOk 503) [''user-stale'' \<mapsto> stale_entry]
                 ''user-stale'' ''token-7'')) = CacheEntry2.totalAvailable e \<and>
        BalanceResult2.ok
          (fst (checkBalance2 0 (\<lambda>token. NotOk 503) [''user-stale'' \<mapsto> stale_entry]
                 ''user-stale'' ''token-7'')) =
          (claudeBalance e > 0 \<or> CacheEntry2.totalAvailable e > 0)"
    using checkBalance_ok_is_usable
            [where now = 0 and fetch = "\<lambda>token. NotOk 503" and user = "''user-stale''"
               and token = "''token-7''" and ?cache2.0 = "[''user-stale'' \<mapsto> stale_entry]"] h2
    by blast
  have ok2: "BalanceResult2.ok
     (fst (checkBalance2 0 (\<lambda>token. NotOk 503) [''user-stale'' \<mapsto> stale_entry]
        ''user-stale'' ''token-7''))"
    using e2 u2 unfolding s2 by auto
  have e1: "\<exists>e. (Map.empty ''user-1'' = Some e \<or>
          snd (checkBalance 0 (\<lambda>token. Body paid_only) Map.empty ''user-1'' ''token-1'') ''user-1''
            = Some e) \<and>
      BalanceResult.balance
        (fst (checkBalance 0 (\<lambda>token. Body paid_only) Map.empty ''user-1'' ''token-1''))
          = CacheEntry.balance e \<and>
      BalanceResult.freeTokens
        (fst (checkBalance 0 (\<lambda>token. Body paid_only) Map.empty ''user-1'' ''token-1''))
          = CacheEntry.freeTokens e \<and>
      BalanceResult.ok
        (fst (checkBalance 0 (\<lambda>token. Body paid_only) Map.empty ''user-1'' ''token-1''))
          = (CacheEntry.balance e > 0 \<or> CacheEntry.freeTokens e > 0)"
    using checkBalance_ok_is_usable
            [where now = 0 and fetch = "\<lambda>token. Body paid_only" and user = "''user-1''"
               and token = "''token-1''" and cache = Map.empty] h1
    by blast
  from h1 e1 h2 ok2 show ?thesis
    by blast
qed


section \<open>The usage reporter (billing)\<close>

subsection \<open>The revision with the retry queue\<close>

record UsageReport =
  userId :: string
  model :: string
  inputTokens :: real
  outputTokens :: real
  cost :: real

text \<open>The report the tests and the request handler build: the same, with the cache token
  counts.\<close>

record UsageReportWithCache = UsageReport +
  cacheReadTokens :: real
  cacheCreationTokens :: real

text \<open>
  An entry of the retry queue. \<open>ident\<close> is the identity of the payload object, which
  \<^verbatim>\<open>reportUsage\<close> creates and the entry carries through every retry: it is what tells two
  submissions with equal contents apart.
\<close>

record FailedReport =
  token :: string
  payload :: "(string \<times> json) list"
  retries :: nat
  nextRetry :: int
  ident :: nat

definition MAX_FAILED_REPORTS :: nat where
  "MAX_FAILED_REPORTS = 1000"

definition MAX_RETRIES :: nat where
  "MAX_RETRIES = 3"

definition BASE_RETRY_MS :: int where
  "BASE_RETRY_MS = 30000"

datatype attempt = FirstSend | Retry

text \<open>
  The module's state: the queue \<^verbatim>\<open>failedReports\<close>; the POSTs not yet settled (first sends
  of \<^verbatim>\<open>sendReport\<close>, retries of \<^verbatim>\<open>_processRetryQueue\<close>), whose \<^verbatim>\<open>then\<close>/\<^verbatim>\<open>catch\<close> callbacks run
  later; the log of every POST issued and of every call to \<^verbatim>\<open>invalidateBalanceCache\<close>; and
  the next unused payload identity.
\<close>

record billing =
  failedReports :: "FailedReport list"
  sending :: "(nat \<times> string \<times> (string \<times> json) list) list"
  retrying :: "FailedReport list"
  posts :: "(attempt \<times> nat \<times> string \<times> (string \<times> json) list) list"
  invalidated :: "string list"
  fresh :: nat

definition billing0 :: billing where
  "billing0 = \<lparr>failedReports = [], sending = [], retrying = [], posts = [],
     invalidated = [], fresh = 0\<rparr>"

text \<open>The payload \<^verbatim>\<open>reportUsage\<close> builds (key order as in the object literal).\<close>

definition usage_payload :: "'a UsageReport_scheme \<Rightarrow> (string \<times> json) list" where
  "usage_payload report =
     [(''model'', JStr (UsageReport.model report)),
      (''provider'', JStr ''anthropic''),
      (''inputTokens'', JNum (UsageReport.inputTokens report)),
      (''outputTokens'', JNum (UsageReport.outputTokens report)),
      (''totalTokens'', JNum (UsageReport.inputTokens report + UsageReport.outputTokens report)),
      (''cost'', JNum (cost report))]"

text \<open>\<^verbatim>\<open>sendReport(token, payload)\<close>: the POST is issued; its outcome comes later.\<close>

definition sendReport :: "string \<Rightarrow> (string \<times> json) list \<Rightarrow> billing \<Rightarrow> billing" where
  "sendReport tok pl s =
     s\<lparr>sending := sending s @ [(fresh s, tok, pl)],
       posts := posts s @ [(FirstSend, fresh s, tok, pl)],
       fresh := Suc (fresh s)\<rparr>"

definition reportUsage :: "string \<Rightarrow> 'a UsageReport_scheme \<Rightarrow> billing \<Rightarrow> billing" where
  "reportUsage tok report s =
     sendReport tok (usage_payload report)
       (s\<lparr>invalidated := invalidated s @ [UsageReport.userId report]\<rparr>)"

text \<open>\<^verbatim>\<open>enqueueFailedReport(token, payload)\<close> at time \<open>now\<close>, on the queue.\<close>

definition enqueueFailedReport ::
  "int \<Rightarrow> string \<Rightarrow> (string \<times> json) list \<Rightarrow> nat \<Rightarrow> FailedReport list \<Rightarrow> FailedReport list" where
  "enqueueFailedReport now tok pl i q =
     (let q1 = (if length q \<ge> MAX_FAILED_REPORTS then tl q else q)
      in q1 @ [\<lparr>token = tok, payload = pl, retries = 0, nextRetry = now + BASE_RETRY_MS,
                ident = i\<rparr>])"

text \<open>
  The \<^verbatim>\<open>while\<close> loop of \<^verbatim>\<open>_processRetryQueue\<close>, with its index \<open>i\<close> and the queue it splices.
  \<open>sent\<close> collects the entries whose retry POST the loop issues, \<open>dropped\<close> those it
  discards. The callbacks of the POSTs run after the loop.
\<close>

function processLoop ::
  "int \<Rightarrow> nat \<Rightarrow> FailedReport list \<Rightarrow> FailedReport list \<Rightarrow> FailedReport list
     \<Rightarrow> FailedReport list \<times> FailedReport list \<times> FailedReport list" where
  "processLoop now i q sent dropped =
     (if i < length q then
        (let entry = q ! i in
         if nextRetry entry > now then processLoop now (Suc i) q sent dropped
         else
           (let q1 = take i q @ drop (Suc i) q;
                entry1 = entry\<lparr>retries := retries entry + 1\<rparr>
            in if retries entry1 > MAX_RETRIES
               then processLoop now i q1 sent (dropped @ [entry1])
               else processLoop now i q1 (sent @ [entry1]) dropped))
      else (q, sent, dropped))"
  by pat_completeness auto
termination
  by (relation "measure (\<lambda>(now, i, q, sent, dropped). length q - i)") auto

definition processRetryQueue :: "int \<Rightarrow> billing \<Rightarrow> billing" where
  "processRetryQueue now s =
     (case processLoop now 0 (failedReports s) [] [] of
        (q, sent, dropped) \<Rightarrow>
          s\<lparr>failedReports := q,
            retrying := retrying s @ sent,
            posts := posts s @ map (\<lambda>e. (Retry, ident e, token e, payload e)) sent\<rparr>)"

text \<open>\<^verbatim>\<open>BASE_RETRY_MS * Math.pow(2, entry.retries - 1)\<close>.\<close>

definition backoff :: "nat \<Rightarrow> int" where
  "backoff r = (if r = 0 then BASE_RETRY_MS div 2 else BASE_RETRY_MS * 2 ^ (r - 1))"

text \<open>The \<^verbatim>\<open>catch\<close> callback of a retry POST, run at time \<open>now\<close> for \<open>entry\<close>.\<close>

definition retryFailed :: "int \<Rightarrow> FailedReport \<Rightarrow> FailedReport list \<Rightarrow> FailedReport list" where
  "retryFailed now entry q =
     (if retries entry < MAX_RETRIES then
        (let entry1 = entry\<lparr>nextRetry := now + backoff (retries entry)\<rparr>
         in if length q < MAX_FAILED_REPORTS then q @ [entry1] else q)
      else q)"

text \<open>
  What can happen to the module, one event at a time: a call of \<^verbatim>\<open>reportUsage\<close>; the
  \<open>k\<close>-th unsettled first send succeeds or fails; the timer runs \<^verbatim>\<open>_processRetryQueue\<close>;
  the \<open>k\<close>-th unsettled retry succeeds or fails. Times are \<^verbatim>\<open>Date.now()\<close> at the event.
  An event that names no unsettled POST changes nothing.
\<close>

datatype 'a event =
  Report string "'a UsageReport_scheme"
  | FirstSendOk nat
  | FirstSendFailed nat int
  | Scan int
  | RetryOk nat
  | RetryFailed nat int

definition remove_nth :: "nat \<Rightarrow> 'b list \<Rightarrow> 'b list" where
  "remove_nth k xs = take k xs @ drop (Suc k) xs"

fun fire :: "'a event \<Rightarrow> billing \<Rightarrow> billing" where
  "fire (Report tok report) s = reportUsage tok report s"
| "fire (FirstSendOk k) s =
     (if k < length (sending s) then s\<lparr>sending := remove_nth k (sending s)\<rparr> else s)"
| "fire (FirstSendFailed k now) s =
     (if k < length (sending s) then
        (case sending s ! k of
           (i, tok, pl) \<Rightarrow>
             s\<lparr>sending := remove_nth k (sending s),
               failedReports := enqueueFailedReport now tok pl i (failedReports s)\<rparr>)
      else s)"
| "fire (Scan now) s = processRetryQueue now s"
| "fire (RetryOk k) s =
     (if k < length (retrying s) then s\<lparr>retrying := remove_nth k (retrying s)\<rparr> else s)"
| "fire (RetryFailed k now) s =
     (if k < length (retrying s) then
        s\<lparr>retrying := remove_nth k (retrying s),
          failedReports := retryFailed now (retrying s ! k) (failedReports s)\<rparr>
      else s)"

definition run :: "'a event list \<Rightarrow> billing \<Rightarrow> billing" where
  "run evs s = foldl (\<lambda>s ev. fire ev s) s evs"

subsection \<open>The first revision: no queue\<close>

record UsageReport0 =
  userId :: string
  model :: string
  usage :: UsageTokens
  costUsd :: real

definition usage_payload0 :: "UsageReport0 \<Rightarrow> (string \<times> json) list" where
  "usage_payload0 report =
     [(''model'', JStr (UsageReport0.model report)),
      (''inputTokens'', UsageTokens.inputTokens (UsageReport0.usage report)),
      (''outputTokens'', UsageTokens.outputTokens (UsageReport0.usage report)),
      (''cacheReadTokens'', UsageTokens.cacheReadTokens (UsageReport0.usage report)),
      (''cacheCreationTokens'', UsageTokens.cacheCreationTokens (UsageReport0.usage report)),
      (''costUsd'', JNum (costUsd report))]"


subsection \<open>The loop is a filter\<close>

declare processLoop.simps [simp del]

abbreviation bump :: "FailedReport \<Rightarrow> FailedReport" where
  "bump e \<equiv> e\<lparr>retries := retries e + 1\<rparr>"

lemma processLoop_eq:
  "i \<le> length q \<Longrightarrow>
   processLoop now i q sent dropped =
     (take i q @ filter (\<lambda>e. nextRetry e > now) (drop i q),
      sent @ map bump (filter (\<lambda>e. \<not> nextRetry e > now \<and> \<not> retries e + 1 > MAX_RETRIES) (drop i q)),
      dropped @ map bump (filter (\<lambda>e. \<not> nextRetry e > now \<and> retries e + 1 > MAX_RETRIES) (drop i q)))"
proof (induction now i q sent dropped rule: processLoop.induct)
  case (1 now i q sent dropped)
  show ?case
  proof (cases "i < length q")
    case False
    then show ?thesis
      by (simp add: processLoop.simps [of now i q])
  next
    case True
    then have d: "drop i q = q ! i # drop (Suc i) q"
      by (simp add: Cons_nth_drop_Suc)
    show ?thesis
    proof (cases "nextRetry (q ! i) > now")
      case keep: True
      have "processLoop now i q sent dropped = processLoop now (Suc i) q sent dropped"
        using True keep by (simp add: processLoop.simps [of now i q])
      also have "\<dots> = (take (Suc i) q @ filter (\<lambda>e. nextRetry e > now) (drop (Suc i) q),
          sent @ map bump (filter (\<lambda>e. \<not> nextRetry e > now \<and> \<not> retries e + 1 > MAX_RETRIES) (drop (Suc i) q)),
          dropped @ map bump (filter (\<lambda>e. \<not> nextRetry e > now \<and> retries e + 1 > MAX_RETRIES) (drop (Suc i) q)))"
        using "1.IH"(1) [OF True refl keep] True by simp
      finally show ?thesis
        using keep True by (simp add: d take_Suc_conv_app_nth)
    next
      case due: False
      let ?q1 = "take i q @ drop (Suc i) q"
      have l: "i \<le> length ?q1" using True by simp
      have t: "take i ?q1 = take i q" using True by simp
      have dr: "drop i ?q1 = drop (Suc i) q" using True by simp
      show ?thesis
      proof (cases "retries (q ! i) + 1 > MAX_RETRIES")
        case over: True
        have step: "processLoop now i q sent dropped
            = processLoop now i ?q1 sent (dropped @ [bump (q ! i)])"
          using True due over by (simp add: processLoop.simps [of now i q] Let_def)
        have ih: "processLoop now i ?q1 sent (dropped @ [bump (q ! i)]) =
          (take i ?q1 @ filter (\<lambda>e. nextRetry e > now) (drop i ?q1),
           sent @ map bump (filter (\<lambda>e. \<not> nextRetry e > now \<and> \<not> retries e + 1 > MAX_RETRIES) (drop i ?q1)),
           (dropped @ [bump (q ! i)]) @ map bump (filter (\<lambda>e. \<not> nextRetry e > now \<and> retries e + 1 > MAX_RETRIES) (drop i ?q1)))"
          by (rule "1.IH"(2) [OF True refl due refl refl]) (use over l in simp_all)
        show ?thesis
          unfolding step ih t dr d using due over by simp
      next
        case under: False
        have step: "processLoop now i q sent dropped
            = processLoop now i ?q1 (sent @ [bump (q ! i)]) dropped"
          using True due under by (simp add: processLoop.simps [of now i q] Let_def)
        have ih: "processLoop now i ?q1 (sent @ [bump (q ! i)]) dropped =
          (take i ?q1 @ filter (\<lambda>e. nextRetry e > now) (drop i ?q1),
           (sent @ [bump (q ! i)]) @ map bump (filter (\<lambda>e. \<not> nextRetry e > now \<and> \<not> retries e + 1 > MAX_RETRIES) (drop i ?q1)),
           dropped @ map bump (filter (\<lambda>e. \<not> nextRetry e > now \<and> retries e + 1 > MAX_RETRIES) (drop i ?q1)))"
          by (rule "1.IH"(3) [OF True refl due refl refl]) (use under l in simp_all)
        show ?thesis
          unfolding step ih t dr d using due under by simp
      qed
    qed
  qed
qed


lemma processRetryQueue_eq:
  "processRetryQueue now s =
     s\<lparr>failedReports := filter (\<lambda>e. nextRetry e > now) (failedReports s),
       retrying := retrying s @
         map bump (filter (\<lambda>e. \<not> nextRetry e > now \<and> \<not> retries e + 1 > MAX_RETRIES) (failedReports s)),
       posts := posts s @
         map (\<lambda>e. (Retry, ident e, token e, payload e))
           (map bump (filter (\<lambda>e. \<not> nextRetry e > now \<and> \<not> retries e + 1 > MAX_RETRIES) (failedReports s)))\<rparr>"
  by (simp add: processRetryQueue_def processLoop_eq)


text \<open>How often an identity occurs among the unsettled first sends, the queue and the
  unsettled retries.\<close>

definition occ :: "billing \<Rightarrow> nat \<Rightarrow> nat" where
  "occ s r = count_list (map fst (sending s)) r + count_list (map ident (failedReports s)) r
     + count_list (map ident (retrying s)) r"

definition well_formed :: "billing \<Rightarrow> bool" where
  "well_formed s = (\<forall>r. occ s r \<le> 1 \<and> (fresh s \<le> r \<longrightarrow> occ s r = 0))"

lemma map_remove_nth: "map f (remove_nth k xs) = remove_nth k (map f xs)"
  by (simp add: remove_nth_def take_map drop_map)

lemma count_remove_nth:
  "k < length xs \<Longrightarrow>
   count_list (remove_nth k xs) r + (if xs ! k = r then 1 else 0) = count_list xs r"
proof -
  assume k: "k < length xs"
  have "count_list xs r = count_list (take k xs @ xs ! k # drop (Suc k) xs) r"
    using id_take_nth_drop [OF k] by simp
  then show ?thesis
    by (simp add: remove_nth_def)
qed

lemma count_remove_nth_le: "count_list (remove_nth k xs) r \<le> count_list xs r"
proof (cases "k < length xs")
  case True
  from count_remove_nth [OF True, of r] show ?thesis by linarith
next
  case False
  then show ?thesis by (simp add: remove_nth_def)
qed

lemma count_tl_le: "count_list (tl xs) r \<le> count_list xs r"
  by (cases xs) simp_all

lemma count_filter_split:
  "count_list (map f (filter P xs)) r + count_list (map f (filter (\<lambda>x. \<not> P x) xs)) r
     = count_list (map f xs) r"
  by (induction xs) simp_all

lemma count_filter_imp_le:
  "(\<And>x. P x \<Longrightarrow> Q x) \<Longrightarrow>
   count_list (map f (filter P xs)) r \<le> count_list (map f (filter Q xs)) r"
  by (induction xs) simp_all

lemma count_pos_iff: "0 < count_list xs r \<longleftrightarrow> r \<in> set xs"
  by (induction xs) auto

lemma ident_enqueue:
  "map ident (enqueueFailedReport now tok pl i q) =
     (if length q \<ge> MAX_FAILED_REPORTS then tl (map ident q) else map ident q) @ [i]"
  by (simp add: enqueueFailedReport_def Let_def map_tl)

lemma ident_retryFailed:
  "map ident (retryFailed now e q) =
     (if retries e < MAX_RETRIES \<and> length q < MAX_FAILED_REPORTS
      then map ident q @ [ident e] else map ident q)"
  by (simp add: retryFailed_def Let_def)

lemma report_fields:
  "sending (reportUsage tok report s) = sending s @ [(fresh s, tok, usage_payload report)]"
  "failedReports (reportUsage tok report s) = failedReports s"
  "retrying (reportUsage tok report s) = retrying s"
  "fresh (reportUsage tok report s) = Suc (fresh s)"
  "posts (reportUsage tok report s) = posts s @ [(FirstSend, fresh s, tok, usage_payload report)]"
  by (simp_all add: reportUsage_def sendReport_def)

lemma scan_fields:
  "sending (processRetryQueue now s) = sending s"
  "failedReports (processRetryQueue now s) = filter (\<lambda>e. nextRetry e > now) (failedReports s)"
  "retrying (processRetryQueue now s) = retrying s @
     map bump (filter (\<lambda>e. \<not> nextRetry e > now \<and> \<not> retries e + 1 > MAX_RETRIES) (failedReports s))"
  "fresh (processRetryQueue now s) = fresh s"
  "posts (processRetryQueue now s) = posts s @
     map (\<lambda>e. (Retry, ident e, token e, payload e))
       (map bump (filter (\<lambda>e. \<not> nextRetry e > now \<and> \<not> retries e + 1 > MAX_RETRIES) (failedReports s)))"
  by (simp_all add: processRetryQueue_eq)

text \<open>No event but \<^verbatim>\<open>reportUsage\<close> makes an identity occur more often.\<close>

lemma occ_report:
  "occ (reportUsage tok report s) r = occ s r + (if r = fresh s then 1 else 0)"
  by (simp add: occ_def report_fields)

lemma occ_first_ok: "occ (fire (FirstSendOk k) s) r \<le> occ s r"
  using count_remove_nth_le [of k "map fst (sending s)" r]
  by (simp add: occ_def map_remove_nth)

lemma occ_retry_ok: "occ (fire (RetryOk k) s) r \<le> occ s r"
  using count_remove_nth_le [of k "map ident (retrying s)" r]
  by (simp add: occ_def map_remove_nth)

lemma occ_first_failed: "occ (fire (FirstSendFailed k now) s) r \<le> occ s r"
proof (cases "k < length (sending s)")
  case False
  then show ?thesis by simp
next
  case True
  obtain i tok pl where e: "sending s ! k = (i, tok, pl)"
    by (cases "sending s ! k") auto
  have i: "map fst (sending s) ! k = i"
    using True e by simp
  have a: "count_list (remove_nth k (map fst (sending s))) r + (if i = r then 1 else 0)
      = count_list (map fst (sending s)) r"
    using count_remove_nth [of k "map fst (sending s)" r] True i by simp
  have b: "count_list (tl (map ident (failedReports s))) r \<le> count_list (map ident (failedReports s)) r"
    by (rule count_tl_le)
  show ?thesis
    using True e a b
    by (simp add: occ_def map_remove_nth ident_enqueue split: if_splits)
qed

lemma occ_retry_failed: "occ (fire (RetryFailed k now) s) r \<le> occ s r"
proof (cases "k < length (retrying s)")
  case False
  then show ?thesis by simp
next
  case True
  have a: "count_list (remove_nth k (map ident (retrying s))) r
      + (if ident (retrying s ! k) = r then 1 else 0)
      = count_list (map ident (retrying s)) r"
    using count_remove_nth [of k "map ident (retrying s)" r] True by simp
  show ?thesis
    using True a
    by (simp add: occ_def map_remove_nth ident_retryFailed split: if_splits)
qed

lemma occ_scan: "occ (processRetryQueue now s) r \<le> occ s r"
proof -
  let ?q = "failedReports s"
  have "count_list (map ident (filter (\<lambda>e. \<not> nextRetry e > now \<and> \<not> retries e + 1 > MAX_RETRIES) ?q)) r
      \<le> count_list (map ident (filter (\<lambda>e. \<not> nextRetry e > now) ?q)) r"
    by (rule count_filter_imp_le) simp
  with count_filter_split [of ident "\<lambda>e. nextRetry e > now" ?q r]
  show ?thesis
    by (simp add: occ_def scan_fields comp_def)
qed

lemma occ_fire: "occ (fire ev s) r \<le> occ s r + (if r = fresh s then 1 else 0)"
proof (cases ev)
  case (Report tok report)
  then show ?thesis by (simp add: occ_report)
next
  case (FirstSendOk k)
  with occ_first_ok [of k s r] show ?thesis by simp
next
  case (FirstSendFailed k now)
  with occ_first_failed [of k now s r] show ?thesis by simp
next
  case (Scan now)
  with occ_scan [of now s r] show ?thesis by simp
next
  case (RetryOk k)
  with occ_retry_ok [of k s r] show ?thesis by simp
next
  case (RetryFailed k now)
  with occ_retry_failed [of k now s r] show ?thesis by simp
qed

lemma fresh_fire: "fresh s \<le> fresh (fire ev s)"
  by (cases ev) (simp_all add: report_fields scan_fields split: prod.splits)

lemma well_formed_fire: "well_formed s \<Longrightarrow> well_formed (fire ev s)"
  unfolding well_formed_def
proof (intro allI conjI impI)
  fix r
  assume wf: "\<forall>r. occ s r \<le> 1 \<and> (fresh s \<le> r \<longrightarrow> occ s r = 0)"
  from wf have "occ s r + (if r = fresh s then 1 else 0) \<le> 1"
    by (cases "r = fresh s") (simp_all add: wf)
  with occ_fire [of ev s r] show "occ (fire ev s) r \<le> 1" by linarith
next
  fix r
  assume wf: "\<forall>r. occ s r \<le> 1 \<and> (fresh s \<le> r \<longrightarrow> occ s r = 0)"
  assume "fresh (fire ev s) \<le> r"
  show "occ (fire ev s) r = 0"
  proof (cases ev)
    case (Report tok report)
    with \<open>fresh (fire ev s) \<le> r\<close> have "Suc (fresh s) \<le> r" by (simp add: report_fields)
    with wf Report show ?thesis by (simp add: occ_report)
  next
    case (FirstSendOk k)
    with fresh_fire [of s ev] \<open>fresh (fire ev s) \<le> r\<close> wf occ_first_ok [of k s r]
    show ?thesis by (metis le_zero_eq order_trans)
  next
    case (FirstSendFailed k now)
    with fresh_fire [of s ev] \<open>fresh (fire ev s) \<le> r\<close> wf occ_first_failed [of k now s r]
    show ?thesis by (metis le_zero_eq order_trans)
  next
    case (Scan now)
    with fresh_fire [of s ev] \<open>fresh (fire ev s) \<le> r\<close> wf occ_scan [of now s r]
    show ?thesis by (metis fire.simps(4) le_zero_eq order_trans)
  next
    case (RetryOk k)
    with fresh_fire [of s ev] \<open>fresh (fire ev s) \<le> r\<close> wf occ_retry_ok [of k s r]
    show ?thesis by (metis le_zero_eq order_trans)
  next
    case (RetryFailed k now)
    with fresh_fire [of s ev] \<open>fresh (fire ev s) \<le> r\<close> wf occ_retry_failed [of k now s r]
    show ?thesis by (metis le_zero_eq order_trans)
  qed
qed


definition posted :: "attempt \<Rightarrow> billing \<Rightarrow> nat \<Rightarrow> nat" where
  "posted a s r = count_list (map (\<lambda>p. (fst p, fst (snd p))) (posts s)) (a, r)"

definition counted :: "billing \<Rightarrow> bool" where
  "counted s =
     ((\<forall>e \<in> set (failedReports s). retries e < MAX_RETRIES \<and> posted Retry s (ident e) = retries e) \<and>
      (\<forall>e \<in> set (retrying s). retries e \<le> MAX_RETRIES \<and> posted Retry s (ident e) = retries e) \<and>
      (\<forall>x \<in> set (sending s). posted Retry s (fst x) = 0) \<and>
      (\<forall>r. posted Retry s r \<le> MAX_RETRIES \<and> posted FirstSend s r \<le> 1) \<and>
      (\<forall>r. fresh s \<le> r \<longrightarrow> posted Retry s r = 0 \<and> posted FirstSend s r = 0))"

lemma set_remove_nth: "set (remove_nth k xs) \<subseteq> set xs"
proof -
  have "set (take k xs) \<subseteq> set xs" by (rule set_take_subset)
  moreover have "set (drop (Suc k) xs) \<subseteq> set xs" by (rule set_drop_subset)
  ultimately show ?thesis by (simp add: remove_nth_def)
qed

lemma set_tl_subset: "set (tl xs) \<subseteq> set xs"
  by (cases xs) auto

lemma count_retry_idents:
  "count_list (map (\<lambda>e. (Retry, ident e)) xs) (a, r)
     = (if a = Retry then count_list (map ident xs) r else 0)"
  by (induction xs) auto

lemma posted_report:
  "posted a (reportUsage tok report s) r =
     posted a s r + (if a = FirstSend \<and> r = fresh s then 1 else 0)"
  by (simp add: posted_def report_fields)

lemma posted_scan:
  "posted a (processRetryQueue now s) r =
     posted a s r +
       (if a = Retry
        then count_list (map ident
          (filter (\<lambda>e. \<not> nextRetry e > now \<and> \<not> retries e + 1 > MAX_RETRIES) (failedReports s))) r
        else 0)"
  by (simp add: posted_def scan_fields comp_def count_retry_idents)

lemma posted_others:
  "posted a (fire (FirstSendOk k) s) r = posted a s r"
  "posted a (fire (FirstSendFailed k now) s) r = posted a s r"
  "posted a (fire (RetryOk k) s) r = posted a s r"
  "posted a (fire (RetryFailed k now) s) r = posted a s r"
  by (simp_all add: posted_def split: prod.splits)

lemma occ_parts:
  assumes "occ s r \<le> 1"
  shows "x \<in> set (sending s) \<Longrightarrow> fst x = r \<Longrightarrow> count_list (map ident (failedReports s)) r = 0"
    and "e \<in> set (retrying s) \<Longrightarrow> ident e = r \<Longrightarrow> count_list (map ident (failedReports s)) r = 0"
    and "count_list (map ident (failedReports s)) r \<le> 1"
proof -
  show "count_list (map ident (failedReports s)) r \<le> 1"
    using assms by (simp add: occ_def)
  {
    assume "x \<in> set (sending s)" "fst x = r"
    then have "r \<in> set (map fst (sending s))" by force
    then have "0 < count_list (map fst (sending s)) r" by (simp add: count_pos_iff)
    with assms show "count_list (map ident (failedReports s)) r = 0" by (simp add: occ_def)
  }
  {
    assume "e \<in> set (retrying s)" "ident e = r"
    then have "r \<in> set (map ident (retrying s))" by force
    then have "0 < count_list (map ident (retrying s)) r" by (simp add: count_pos_iff)
    with assms show "count_list (map ident (failedReports s)) r = 0" by (simp add: occ_def)
  }
qed


lemma counted_report:
  assumes "counted s"
  shows "counted (reportUsage tok report s)"
  using assms
  by (auto simp: counted_def posted_report report_fields)

lemma counted_first_ok:
  assumes "counted s"
  shows "counted (fire (FirstSendOk k) s)"
proof -
  have "set (remove_nth k (sending s)) \<subseteq> set (sending s)" by (rule set_remove_nth)
  with assms show ?thesis
    unfolding counted_def posted_others by auto
qed

lemma counted_retry_ok:
  assumes "counted s"
  shows "counted (fire (RetryOk k) s)"
proof -
  have "set (remove_nth k (retrying s)) \<subseteq> set (retrying s)" by (rule set_remove_nth)
  with assms show ?thesis
    unfolding counted_def posted_others by auto
qed

lemma counted_first_failed:
  assumes "counted s"
  shows "counted (fire (FirstSendFailed k now) s)"
proof (cases "k < length (sending s)")
  case False
  with assms show ?thesis by simp
next
  case True
  obtain i tok pl where e: "sending s ! k = (i, tok, pl)"
    by (cases "sending s ! k") auto
  have i: "posted Retry s i = 0"
    using assms True e nth_mem [OF True] by (auto simp: counted_def)
  have sub: "set (remove_nth k (sending s)) \<subseteq> set (sending s)" by (rule set_remove_nth)
  have tl: "set (tl (failedReports s)) \<subseteq> set (failedReports s)" by (rule set_tl_subset)
  have q: "set (enqueueFailedReport now tok pl i (failedReports s)) \<subseteq>
      set (failedReports s) \<union> {\<lparr>token = tok, payload = pl, retries = 0,
        nextRetry = now + BASE_RETRY_MS, ident = i\<rparr>}"
    using tl by (auto simp: enqueueFailedReport_def Let_def)
  have f: "fire (FirstSendFailed k now) s =
      s\<lparr>sending := remove_nth k (sending s),
        failedReports := enqueueFailedReport now tok pl i (failedReports s)\<rparr>"
    using True e by simp
  show ?thesis
    unfolding counted_def posted_others
    unfolding f
    using assms i sub q
    by (auto simp: counted_def MAX_RETRIES_def)
qed

lemma counted_retry_failed:
  assumes "counted s"
  shows "counted (fire (RetryFailed k now) s)"
proof (cases "k < length (retrying s)")
  case False
  with assms show ?thesis by simp
next
  case True
  let ?e = "retrying s ! k"
  have e: "retries ?e \<le> MAX_RETRIES \<and> posted Retry s (ident ?e) = retries ?e"
    using assms nth_mem [OF True] by (auto simp: counted_def)
  have sub: "set (remove_nth k (retrying s)) \<subseteq> set (retrying s)" by (rule set_remove_nth)
  have q: "set (retryFailed now ?e (failedReports s)) \<subseteq>
      set (failedReports s) \<union>
        (if retries ?e < MAX_RETRIES then {?e\<lparr>nextRetry := now + backoff (retries ?e)\<rparr>} else {})"
    by (auto simp: retryFailed_def Let_def)
  have f: "fire (RetryFailed k now) s =
      s\<lparr>retrying := remove_nth k (retrying s),
        failedReports := retryFailed now ?e (failedReports s)\<rparr>"
    using True by simp
  show ?thesis
    unfolding counted_def posted_others
    unfolding f
    using assms e sub q
    by (auto simp: counted_def split: if_splits)
qed


lemma counted_scan:
  assumes wf: "well_formed s" and c: "counted s"
  shows "counted (processRetryQueue now s)"
proof -
  let ?q = "failedReports s"
  let ?keep = "\<lambda>e. nextRetry e > now"
  let ?under = "\<lambda>e. \<not> nextRetry e > now \<and> \<not> retries e + 1 > MAX_RETRIES"
  let ?n = "\<lambda>r. count_list (map ident (filter ?under ?q)) r"
  have one: "occ s r \<le> 1" for r
    using wf by (simp add: well_formed_def)
  have n_le: "?n r \<le> count_list (map ident (filter (\<lambda>e. \<not> ?keep e) ?q)) r" for r
    by (rule count_filter_imp_le) simp
  have split: "count_list (map ident (filter ?keep ?q)) r
      + count_list (map ident (filter (\<lambda>e. \<not> ?keep e) ?q)) r = count_list (map ident ?q) r" for r
    by (rule count_filter_split)
  have n_q: "?n r \<le> count_list (map ident ?q) r" for r
    using n_le [of r] split [of r] by linarith
  have n_one: "?n r \<le> 1" for r
    using n_q [of r] occ_parts(3) [OF one, of r] by linarith
  have kept: "?n (ident e) = 0" if "e \<in> set (filter ?keep ?q)" for e
  proof -
    from that have "ident e \<in> set (map ident (filter ?keep ?q))" by force
    then have "0 < count_list (map ident (filter ?keep ?q)) (ident e)"
      by (simp only: count_pos_iff)
    with split [of "ident e"] occ_parts(3) [OF one, of "ident e"] n_le [of "ident e"]
    show ?thesis by linarith
  qed
  have sent: "?n (ident e) = 1" if "e \<in> set (filter ?under ?q)" for e
  proof -
    from that have "ident e \<in> set (map ident (filter ?under ?q))" by force
    then have "0 < ?n (ident e)" by (simp only: count_pos_iff)
    with n_one [of "ident e"] show ?thesis by linarith
  qed
  have old: "?n (ident e) = 0" if "e \<in> set (retrying s)" for e
    using occ_parts(2) [OF one that refl] n_q [of "ident e"] by linarith
  have snd: "?n (fst x) = 0" if "x \<in> set (sending s)" for x
    using occ_parts(1) [OF one that refl] n_q [of "fst x"] by linarith
  have new: "?n r = 0" if "fresh s \<le> r" for r
  proof -
    from wf that have "occ s r = 0" by (simp add: well_formed_def)
    then have "count_list (map ident ?q) r = 0" by (simp add: occ_def)
    with n_q [of r] show ?thesis by linarith
  qed
  have bound: "posted Retry s r + ?n r \<le> MAX_RETRIES" for r
  proof (cases "?n r = 0")
    case True
    with c show ?thesis by (simp add: counted_def)
  next
    case False
    then have "r \<in> set (map ident (filter ?under ?q))"
      by (simp only: count_pos_iff [symmetric])
    then obtain e where e: "e \<in> set (filter ?under ?q)" "ident e = r" by auto
    then have "e \<in> set ?q" "retries e + 1 \<le> MAX_RETRIES" by auto
    moreover from this c have "posted Retry s (ident e) = retries e" by (simp add: counted_def)
    ultimately show ?thesis using sent [OF e(1)] e(2) by simp
  qed
  show ?thesis
    unfolding counted_def
  proof (intro conjI ballI allI impI)
    fix e assume e: "e \<in> set (failedReports (processRetryQueue now s))"
    then have k: "e \<in> set (filter ?keep ?q)" by (simp add: scan_fields)
    then have "e \<in> set ?q" by simp
    with c show "retries e < MAX_RETRIES" by (simp add: counted_def)
    from \<open>e \<in> set ?q\<close> c have "posted Retry s (ident e) = retries e" by (simp add: counted_def)
    with kept [OF k] show "posted Retry (processRetryQueue now s) (ident e) = retries e"
      by (simp add: posted_scan)
  next
    fix e assume e: "e \<in> set (retrying (processRetryQueue now s))"
    then consider "e \<in> set (retrying s)"
      | e0 where "e0 \<in> set (filter ?under ?q)" "e = e0\<lparr>retries := retries e0 + 1\<rparr>"
      by (auto simp: scan_fields)
    then show "retries e \<le> MAX_RETRIES"
    proof cases
      case 1 with c show ?thesis by (simp add: counted_def)
    next
      case 2 then show ?thesis by auto
    qed
    from e consider "e \<in> set (retrying s)"
      | e0 where "e0 \<in> set (filter ?under ?q)" "e = e0\<lparr>retries := retries e0 + 1\<rparr>"
      by (auto simp: scan_fields)
    then show "posted Retry (processRetryQueue now s) (ident e) = retries e"
    proof cases
      case 1
      with c have "posted Retry s (ident e) = retries e" by (simp add: counted_def)
      with old [OF 1] show ?thesis by (simp add: posted_scan)
    next
      case 2
      then have "e0 \<in> set ?q" by simp
      with c have "posted Retry s (ident e0) = retries e0" by (simp add: counted_def)
      with sent [OF 2(1)] 2(2) show ?thesis by (simp add: posted_scan)
    qed
  next
    fix x assume "x \<in> set (sending (processRetryQueue now s))"
    then have x: "x \<in> set (sending s)" by (simp add: scan_fields)
    with c have "posted Retry s (fst x) = 0" by (simp add: counted_def)
    with snd [OF x] show "posted Retry (processRetryQueue now s) (fst x) = 0"
      by (simp add: posted_scan)
  next
    fix r show "posted Retry (processRetryQueue now s) r \<le> MAX_RETRIES"
      using bound [of r] by (simp add: posted_scan)
  next
    fix r from c show "posted FirstSend (processRetryQueue now s) r \<le> 1"
      by (simp add: posted_scan counted_def)
  next
    fix r assume "fresh (processRetryQueue now s) \<le> r"
    then have r: "fresh s \<le> r" by (simp add: scan_fields)
    with c have "posted Retry s r = 0" by (simp add: counted_def)
    with new [OF r] show "posted Retry (processRetryQueue now s) r = 0"
      by (simp add: posted_scan)
  next
    fix r assume "fresh (processRetryQueue now s) \<le> r"
    then have r: "fresh s \<le> r" by (simp add: scan_fields)
    with c show "posted FirstSend (processRetryQueue now s) r = 0"
      by (simp add: posted_scan counted_def)
  qed
qed

lemma counted_fire: "well_formed s \<Longrightarrow> counted s \<Longrightarrow> counted (fire ev s)"
  by (cases ev)
    (simp_all add: counted_report counted_first_ok counted_retry_ok counted_first_failed
      counted_retry_failed counted_scan del: fire.simps(2,3,5,6))

lemma reachable_invariant:
  "well_formed s \<Longrightarrow> counted s \<Longrightarrow> well_formed (run evs s) \<and> counted (run evs s)"
  unfolding run_def
  by (induction evs arbitrary: s) (simp_all add: well_formed_fire counted_fire)

lemma billing0_invariant: "well_formed billing0 \<and> counted billing0"
  by (simp add: well_formed_def counted_def billing0_def occ_def posted_def)


lemma run_Nil: "run [] s = s"
  by (simp add: run_def)

lemma run_Cons: "run (ev # evs) s = run evs (fire ev s)"
  by (simp add: run_def)

text \<open>An identity that has been handed out and occurs nowhere never comes back.\<close>

lemma gone_stays_gone:
  "r < fresh s \<Longrightarrow> occ s r = 0 \<Longrightarrow> occ (run evs s) r = 0"
proof (induction evs arbitrary: s)
  case Nil
  then show ?case by (simp add: run_Nil)
next
  case (Cons ev evs)
  have "occ (fire ev s) r \<le> occ s r + (if r = fresh s then 1 else 0)" by (rule occ_fire)
  with Cons.prems have z: "occ (fire ev s) r = 0" by simp
  have "r < fresh (fire ev s)"
    using Cons.prems(1) fresh_fire [of s ev] by linarith
  from Cons.IH [OF this z] show ?case by (simp add: run_Cons)
qed

lemma occ_pos_fresh: "well_formed s \<Longrightarrow> 0 < occ s r \<Longrightarrow> r < fresh s"
  unfolding well_formed_def by (metis not_le_imp_less not_less_zero)

lemma dropped_after_last_retry:
  fixes evs :: "'a event list"
  assumes wf: "well_formed s" and k: "k < length (retrying s)"
    and m: "MAX_RETRIES \<le> retries (retrying s ! k)"
  shows "failedReports (fire (RetryFailed k now :: 'a event) s) = failedReports s"
    and "occ (run evs (fire (RetryFailed k now :: 'a event) s)) (ident (retrying s ! k)) = 0"
proof -
  let ?e = "retrying s ! k"
  let ?r = "ident ?e"
  let ?s = "fire (RetryFailed k now :: 'a event) s"
  show q: "failedReports ?s = failedReports s"
    using k m by (simp add: retryFailed_def)
  have one: "occ s ?r \<le> 1" using wf by (simp add: well_formed_def)
  have a: "count_list (remove_nth k (map ident (retrying s))) ?r + 1
      = count_list (map ident (retrying s)) ?r"
    using count_remove_nth [of k "map ident (retrying s)" ?r] k by simp
  with one have pos: "0 < occ s ?r" by (simp add: occ_def)
  from a one have gone: "occ ?s ?r = 0"
    using k m by (simp add: occ_def map_remove_nth retryFailed_def)
  have "?r < fresh ?s"
    using occ_pos_fresh [OF wf pos] k by simp
  from gone_stays_gone [OF this gone] show "occ (run evs ?s) ?r = 0" .
qed

lemma dropped_at_dispatch:
  fixes evs :: "'a event list"
  assumes wf: "well_formed s" and e: "e \<in> set (failedReports s)"
    and due: "nextRetry e \<le> now" and m: "MAX_RETRIES < retries e + 1"
  shows "posted a (fire (Scan now :: 'a event) s) (ident e) = posted a s (ident e)"
    and "occ (run evs (fire (Scan now :: 'a event) s)) (ident e) = 0"
proof -
  let ?q = "failedReports s"
  let ?r = "ident e"
  let ?s = "fire (Scan now :: 'a event) s"
  let ?keep = "\<lambda>e. nextRetry e > now"
  let ?under = "\<lambda>e. \<not> nextRetry e > now \<and> \<not> retries e + 1 > MAX_RETRIES"
  let ?over = "\<lambda>e. \<not> nextRetry e > now \<and> retries e + 1 > MAX_RETRIES"
  have one: "occ s ?r \<le> 1" using wf by (simp add: well_formed_def)
  from e due m have "?r \<in> set (map ident (filter ?over ?q))" by force
  then have over: "0 < count_list (map ident (filter ?over ?q)) ?r"
    by (simp only: count_pos_iff)
  have s1: "count_list (map ident (filter ?keep ?q)) ?r
      + count_list (map ident (filter (\<lambda>e. \<not> ?keep e) ?q)) ?r = count_list (map ident ?q) ?r"
    by (rule count_filter_split)
  have s2: "count_list (map ident (filter (\<lambda>e. \<not> retries e + 1 > MAX_RETRIES) (filter (\<lambda>e. \<not> ?keep e) ?q))) ?r
      + count_list (map ident (filter (\<lambda>e. \<not> \<not> retries e + 1 > MAX_RETRIES) (filter (\<lambda>e. \<not> ?keep e) ?q))) ?r
      = count_list (map ident (filter (\<lambda>e. \<not> ?keep e) ?q)) ?r"
    by (rule count_filter_split)
  have f1: "filter (\<lambda>e. \<not> retries e + 1 > MAX_RETRIES) (filter (\<lambda>e. \<not> ?keep e) ?q) = filter ?under ?q"
    by (simp add: conj_commute)
  have f2: "filter (\<lambda>e. \<not> \<not> retries e + 1 > MAX_RETRIES) (filter (\<lambda>e. \<not> ?keep e) ?q) = filter ?over ?q"
    by (simp add: conj_commute)
  have q1: "count_list (map ident ?q) ?r \<le> 1" using one by (simp add: occ_def)
  from s1 s2 over q1 have z: "count_list (map ident (filter ?keep ?q)) ?r = 0"
    "count_list (map ident (filter ?under ?q)) ?r = 0" "count_list (map ident ?q) ?r = 1"
    unfolding f1 f2 by linarith+
  show "posted a ?s ?r = posted a s ?r"
    using z(2) by (simp add: posted_scan)
  from z(3) one have rest: "count_list (map fst (sending s)) ?r = 0"
    "count_list (map ident (retrying s)) ?r = 0"
    by (simp_all add: occ_def)
  have gone: "occ ?s ?r = 0"
    using z rest by (simp add: occ_def scan_fields comp_def)
  have pos: "0 < occ s ?r" using z(3) by (simp add: occ_def)
  have "?r < fresh ?s"
    using occ_pos_fresh [OF wf pos] by (simp add: scan_fields)
  from gone_stays_gone [OF this gone] show "occ (run evs ?s) ?r = 0" .
qed

lemma length_enqueue:
  "length q \<le> MAX_FAILED_REPORTS \<Longrightarrow>
   length (enqueueFailedReport now tok pl i q) \<le> MAX_FAILED_REPORTS"
  by (simp add: enqueueFailedReport_def Let_def MAX_FAILED_REPORTS_def)

lemma length_retryFailed:
  "length q \<le> MAX_FAILED_REPORTS \<Longrightarrow> length (retryFailed now e q) \<le> MAX_FAILED_REPORTS"
  by (simp add: retryFailed_def Let_def)

lemma length_scan:
  "length (failedReports (processRetryQueue now s)) \<le> length (failedReports s)"
  by (simp add: scan_fields)

lemma length_fire:
  assumes "length (failedReports s) \<le> MAX_FAILED_REPORTS"
  shows "length (failedReports (fire ev s)) \<le> MAX_FAILED_REPORTS"
proof (cases ev)
  case (Report tok report)
  with assms show ?thesis by (simp add: report_fields)
next
  case (FirstSendOk k)
  with assms show ?thesis by simp
next
  case (FirstSendFailed k now)
  with assms show ?thesis by (simp add: length_enqueue split: prod.splits)
next
  case (Scan now)
  with assms length_scan [of now s] show ?thesis by simp
next
  case (RetryOk k)
  with assms show ?thesis by simp
next
  case (RetryFailed k now)
  with assms show ?thesis by (simp add: length_retryFailed)
qed

lemma length_run:
  "length (failedReports s) \<le> MAX_FAILED_REPORTS \<Longrightarrow>
   length (failedReports (run evs s)) \<le> MAX_FAILED_REPORTS"
  by (induction evs arbitrary: s) (simp_all add: run_Nil run_Cons length_fire)



subsection \<open>The payload\<close>

text \<open>The report of the tests (\<^verbatim>\<open>baseReport\<close>), and the same usage in the shape the first
  revision takes.\<close>

definition baseReport :: UsageReportWithCache where
  "baseReport = \<lparr>UsageReport.userId = ''user-1'', UsageReport.model = ''claude-sonnet-4-6'',
     UsageReport.inputTokens = 1000, UsageReport.outputTokens = 500, cost = 0.0105,
     cacheReadTokens = 200, cacheCreationTokens = 100\<rparr>"

definition baseReport0 :: UsageReport0 where
  "baseReport0 = \<lparr>userId = ''user-1'', model = ''claude-sonnet-4-6'',
     usage = \<lparr>UsageTokens.inputTokens = JNum 1000, UsageTokens.outputTokens = JNum 500,
               UsageTokens.cacheReadTokens = JNum 200, UsageTokens.cacheCreationTokens = JNum 100\<rparr>,
     costUsd = 0.0105\<rparr>"


text \<open>
  C5. On the report of the tests the revision with the retry queue POSTs \<^verbatim>\<open>model\<close>,
  \<^verbatim>\<open>provider\<close>, \<^verbatim>\<open>inputTokens\<close>, \<^verbatim>\<open>outputTokens\<close>, \<^verbatim>\<open>totalTokens\<close> = 1000 + 500 and \<^verbatim>\<open>cost\<close>:
  no \<^verbatim>\<open>cacheReadTokens\<close>, \<^verbatim>\<open>cacheWriteTokens\<close> or \<^verbatim>\<open>currency\<close>, and a total without the cache
  tokens. The first revision POSTs \<^verbatim>\<open>cacheCreationTokens\<close> and \<^verbatim>\<open>costUsd\<close>, and neither
  \<^verbatim>\<open>provider\<close>, \<^verbatim>\<open>totalTokens\<close> nor \<^verbatim>\<open>currency\<close>.
\<close>

theorem reportUsage_payload_lacks_cache_fields:
  "posts (reportUsage ''jwt-token'' baseReport billing0) =
     [(FirstSend, 0, ''jwt-token'',
       [(''model'', JStr ''claude-sonnet-4-6''), (''provider'', JStr ''anthropic''),
        (''inputTokens'', JNum 1000), (''outputTokens'', JNum 500),
        (''totalTokens'', JNum 1500), (''cost'', JNum 0.0105)])] \<and>
   usage_payload0 baseReport0 =
     [(''model'', JStr ''claude-sonnet-4-6''), (''inputTokens'', JNum 1000),
      (''outputTokens'', JNum 500), (''cacheReadTokens'', JNum 200),
      (''cacheCreationTokens'', JNum 100), (''costUsd'', JNum 0.0105)]"
  by (simp add: reportUsage_def sendReport_def usage_payload_def usage_payload0_def
      baseReport_def baseReport0_def billing0_def)


subsection \<open>Retries and the bound of the queue\<close>

definition retry_ladder :: "unit UsageReportWithCache_ext event list" where
  "retry_ladder =
     [Report ''token'' baseReport, FirstSendFailed 0 0,
      Scan 31000, RetryFailed 0 31001,
      Scan 92001, RetryFailed 0 92002,
      Scan 213002, RetryFailed 0 213003,
      Scan 513003]"

lemma retry_ladder_posts: "posted Retry (run retry_ladder billing0) 0 = 3"
  by (simp add: retry_ladder_def run_def billing0_def reportUsage_def sendReport_def
      processRetryQueue_eq posted_def enqueueFailedReport_def retryFailed_def backoff_def
      remove_nth_def MAX_RETRIES_def MAX_FAILED_REPORTS_def BASE_RETRY_MS_def Let_def)

lemma retry_ladder_ends_empty:
  "failedReports (run retry_ladder billing0) = [] \<and> retrying (run retry_ladder billing0) = []"
  by (simp add: retry_ladder_def run_def billing0_def reportUsage_def sendReport_def
      processRetryQueue_eq posted_def enqueueFailedReport_def retryFailed_def backoff_def
      remove_nth_def MAX_RETRIES_def MAX_FAILED_REPORTS_def BASE_RETRY_MS_def Let_def)

definition worn :: billing where
  "worn = \<lparr>failedReports = [\<lparr>token = ''t'', payload = [], retries = 3, nextRetry = 0, ident = 1\<rparr>],
     sending = [],
     retrying = [\<lparr>token = ''t'', payload = [], retries = 3, nextRetry = 0, ident = 0\<rparr>],
     posts = [], invalidated = [], fresh = 2\<rparr>"

lemma well_formed_worn: "well_formed worn"
  by (simp add: well_formed_def worn_def occ_def)

lemma worn_facts:
  "0 < length (retrying worn)" "retries (retrying worn ! 0) = MAX_RETRIES"
  "ident (retrying worn ! 0) = 0"
  "\<lparr>token = ''t'', payload = [], retries = 3, nextRetry = 0, ident = 1\<rparr> \<in> set (failedReports worn)"
  by (simp_all add: worn_def MAX_RETRIES_def)

text \<open>
  C6. In every state the module can reach from its initial one, an entry has had at most
  \<open>MAX_RETRIES = 3\<close> retry POSTs, hence at most 4 POSTs with its first send. When a retry
  fails with the entry's counter at \<open>MAX_RETRIES\<close> the queue is left as it was, and when the
  scan finds the counter would exceed \<open>MAX_RETRIES\<close> no POST is issued; in both cases the
  entry is in neither the queue nor among the unsettled POSTs, whatever happens later.
\<close>

theorem retry_attempts_bounded:
  fixes evs evs2 :: "'a event list"
  shows "well_formed (run evs billing0) \<and>
    posted Retry (run evs billing0) r \<le> MAX_RETRIES \<and> MAX_RETRIES = 3 \<and>
    posted FirstSend (run evs billing0) r + posted Retry (run evs billing0) r \<le> 4 \<and>
    (well_formed s \<and> k < length (retrying s) \<and> retries (retrying s ! k) = MAX_RETRIES \<longrightarrow>
       failedReports (fire (RetryFailed k now :: 'a event) s) = failedReports s \<and>
       occ (run evs2 (fire (RetryFailed k now :: 'a event) s)) (ident (retrying s ! k)) = 0) \<and>
    (well_formed s \<and> e \<in> set (failedReports s) \<and> nextRetry e \<le> now' \<and>
       MAX_RETRIES < retries e + 1 \<longrightarrow>
       posted Retry (fire (Scan now' :: 'a event) s) (ident e) = posted Retry s (ident e) \<and>
       occ (run evs2 (fire (Scan now' :: 'a event) s)) (ident e) = 0)"
proof -
  have inv: "well_formed (run evs billing0) \<and> counted (run evs billing0)"
    using billing0_invariant reachable_invariant by blast
  then have c: "posted Retry (run evs billing0) r \<le> MAX_RETRIES"
    "posted FirstSend (run evs billing0) r \<le> 1"
    by (simp_all add: counted_def)
  then have four: "posted FirstSend (run evs billing0) r + posted Retry (run evs billing0) r \<le> 4"
    by (simp add: MAX_RETRIES_def)
  show ?thesis
    using inv c(1) four
      dropped_after_last_retry(1) [where s = s and k = k and now = now]
      dropped_after_last_retry(2) [where s = s and k = k and now = now and evs = evs2]
      dropped_at_dispatch(1) [where s = s and e = e and now = now' and a = Retry]
      dropped_at_dispatch(2) [where s = s and e = e and now = now' and evs = evs2]
    by (simp add: MAX_RETRIES_def)
qed

theorem retry_attempts_bounded_witness:
  "posted Retry (run retry_ladder billing0) 0 = 3 \<and>
   well_formed worn \<and>
   occ (run retry_ladder
          (fire (RetryFailed 0 5 :: unit UsageReportWithCache_ext event) worn)) 0 = 0 \<and>
   posted Retry (fire (Scan 5 :: unit UsageReportWithCache_ext event) worn) 1 = posted Retry worn 1 \<and>
   occ (run retry_ladder (fire (Scan 5 :: unit UsageReportWithCache_ext event) worn)) 1 = 0"
proof -
  note T = retry_attempts_bounded
          [where evs = retry_ladder and ?evs2.0 = retry_ladder and r = 0 and s = worn and k = 0
             and now = 5 and now' = 5
             and e = "\<lparr>token = ''t'', payload = [], retries = 3, nextRetry = 0, ident = 1\<rparr>"]
  have a: "well_formed worn \<and> 0 < length (retrying worn) \<and>
      retries (retrying worn ! 0) = MAX_RETRIES"
    using well_formed_worn worn_facts by simp
  have b: "well_formed worn \<and>
      \<lparr>token = ''t'', payload = [], retries = 3, nextRetry = 0, ident = 1\<rparr>
        \<in> set (failedReports worn) \<and>
      nextRetry \<lparr>token = ''t'', payload = [], retries = 3, nextRetry = 0, ident = 1\<rparr> \<le> 5 \<and>
      MAX_RETRIES < retries \<lparr>token = ''t'', payload = [], retries = 3, nextRetry = 0, ident = 1\<rparr> + 1"
    using well_formed_worn worn_facts by (simp add: MAX_RETRIES_def)
  from T a have "occ (run retry_ladder
      (fire (RetryFailed 0 5 :: unit UsageReportWithCache_ext event) worn))
      (ident (retrying worn ! 0)) = 0"
    by blast
  then have c: "occ (run retry_ladder
      (fire (RetryFailed 0 5 :: unit UsageReportWithCache_ext event) worn)) 0 = 0"
    by (simp only: worn_facts(3))
  from T b have "posted Retry (fire (Scan 5 :: unit UsageReportWithCache_ext event) worn)
        (ident \<lparr>token = ''t'', payload = [], retries = 3, nextRetry = 0, ident = 1\<rparr>)
      = posted Retry worn
        (ident \<lparr>token = ''t'', payload = [], retries = 3, nextRetry = 0, ident = 1\<rparr>) \<and>
    occ (run retry_ladder (fire (Scan 5 :: unit UsageReportWithCache_ext event) worn))
        (ident \<lparr>token = ''t'', payload = [], retries = 3, nextRetry = 0, ident = 1\<rparr>) = 0"
    by blast
  then have d: "posted Retry (fire (Scan 5 :: unit UsageReportWithCache_ext event) worn) 1
      = posted Retry worn 1 \<and>
    occ (run retry_ladder (fire (Scan 5 :: unit UsageReportWithCache_ext event) worn)) 1 = 0"
    by (simp del: fire.simps)
  from retry_ladder_posts well_formed_worn c d show ?thesis
    by blast
qed

definition full_queue :: "FailedReport list" where
  "full_queue =
     map (\<lambda>i. \<lparr>token = ''t'', payload = [], retries = 0, nextRetry = 30000, ident = i\<rparr>) [0..<1000]"

definition late_entry :: FailedReport where
  "late_entry = \<lparr>token = ''t'', payload = [], retries = 1, nextRetry = 0, ident = 1000\<rparr>"

text \<open>
  C7, as the claim states it, fails for the re-append: when a retry of an entry that still
  has retries left fails while the queue holds 1000 entries, the queue is left as it is.
  Its oldest entry stays; the entry discarded is the retried one.
\<close>

theorem reappend_on_full_queue_counterexample:
  "length full_queue = MAX_FAILED_REPORTS \<and> retries late_entry < MAX_RETRIES \<and>
   retryFailed 31001 late_entry full_queue = full_queue \<and>
   ident (hd (retryFailed 31001 late_entry full_queue)) = 0 \<and>
   ident late_entry \<notin> ident ` set (retryFailed 31001 late_entry full_queue)"
proof -
  have l: "length full_queue = 1000" by (simp add: full_queue_def)
  have h: "ident (hd full_queue) = 0"
    by (simp add: full_queue_def hd_map)
  have n: "ident late_entry \<notin> ident ` set full_queue"
    by (auto simp: full_queue_def late_entry_def)
  have r: "retryFailed 31001 late_entry full_queue = full_queue"
    using l by (simp add: retryFailed_def MAX_FAILED_REPORTS_def late_entry_def MAX_RETRIES_def)
  show ?thesis
    unfolding r using l h n
    by (simp add: MAX_FAILED_REPORTS_def late_entry_def MAX_RETRIES_def)
qed

text \<open>
  C7, amended. In every state the module can reach the queue holds at most
  \<open>MAX_FAILED_REPORTS = 1000\<close> entries. When the enqueue of a failed first send finds the
  queue full, the oldest entry is discarded and the new one appended. When the re-append
  after a failed retry finds the queue full, the queue is left unchanged: the retried entry
  is the one discarded.
\<close>

theorem retry_queue_bounded:
  "length (failedReports (run evs billing0)) \<le> MAX_FAILED_REPORTS \<and>
   MAX_FAILED_REPORTS = 1000 \<and>
   (MAX_FAILED_REPORTS \<le> length q \<longrightarrow>
      enqueueFailedReport now tok pl i q =
        tl q @ [\<lparr>token = tok, payload = pl, retries = 0, nextRetry = now + BASE_RETRY_MS,
                 ident = i\<rparr>]) \<and>
   (MAX_FAILED_REPORTS \<le> length q \<longrightarrow> retryFailed now' e q = q)"
proof -
  have "length (failedReports (run evs billing0)) \<le> MAX_FAILED_REPORTS"
    by (rule length_run) (simp add: billing0_def)
  then show ?thesis
    by (simp add: enqueueFailedReport_def retryFailed_def Let_def MAX_FAILED_REPORTS_def)
qed

theorem retry_queue_bounded_witness:
  "length (failedReports (run retry_ladder billing0)) \<le> 1000 \<and>
   MAX_FAILED_REPORTS \<le> length full_queue \<and>
   ident (hd (enqueueFailedReport 0 ''t'' [] 1000 full_queue)) = 1 \<and>
   ident (last (enqueueFailedReport 0 ''t'' [] 1000 full_queue)) = 1000 \<and>
   length (enqueueFailedReport 0 ''t'' [] 1000 full_queue) = 1000 \<and>
   retryFailed 31001 late_entry full_queue = full_queue"
proof -
  have l: "MAX_FAILED_REPORTS \<le> length full_queue"
    by (simp add: full_queue_def MAX_FAILED_REPORTS_def)
  have t: "ident (hd (tl full_queue)) = 1"
    by (simp add: full_queue_def hd_map upt_rec [of 0] upt_rec [of 1] del: upt.simps)
  have ne: "tl full_queue \<noteq> []"
    by (simp add: full_queue_def upt_rec [of 0] upt_rec [of 1] del: upt.simps)
  from retry_queue_bounded
         [where evs = retry_ladder and q = full_queue and now = 0 and tok = "''t''" and pl = "[]"
            and i = 1000 and now' = 31001 and e = late_entry] l
  show ?thesis
    using t ne by (simp add: MAX_FAILED_REPORTS_def full_queue_def)
qed


section \<open>The request handler (proxy)\<close>

text \<open>A header of the inbound request is a string or, when repeated, a list of strings.\<close>

datatype header = HString string | HArray "string list"

record request =
  headers :: "string \<rightharpoonup> header"
  body :: "json option"

text \<open>
  What the handler calls, in the order it calls it: \<^verbatim>\<open>verifyToken(apiKey)\<close>,
  \<^verbatim>\<open>checkBalance(userId, apiKey)\<close>, and the \<^verbatim>\<open>fetch\<close> of the upstream with its headers and the
  body it re-serialises.
\<close>

datatype call =
  VerifyToken string
  | CheckBalance string string
  | FetchUpstream "(string \<times> string) list" "json option"

text \<open>
  The handler either sends a reply of its own (status and JSON body) or, once the upstream
  has answered, relays that answer (steps 6 to 8: status, headers, body, metering), for
  which it keeps the model named in the request body.
\<close>

datatype 'u outcome = Sent nat json | Relayed 'u json

text \<open>The imports of the handler: the configured upstream key, \<^verbatim>\<open>verifyToken\<close>,
  \<^verbatim>\<open>checkBalance\<close> and the upstream \<^verbatim>\<open>fetch\<close> (\<open>None\<close> when it throws).\<close>

record 'u env =
  anthropicApiKey :: string
  verify :: "string \<Rightarrow> error + JwtPayload"
  check :: "string \<Rightarrow> string \<Rightarrow> BalanceResult2"
  fetch :: "(string \<times> string) list \<Rightarrow> json option \<Rightarrow> 'u option"

definition FORWARD_HEADERS :: "string list" where
  "FORWARD_HEADERS = [''anthropic-version'', ''anthropic-beta'', ''content-type'']"

text \<open>Step 4: the upstream headers. A forwarded header overwrites an entry in place or is
  added at the end, as assignment to an object's property does.\<close>

definition upstreamHeaders :: "'u env \<Rightarrow> request \<Rightarrow> (string \<times> string) list" where
  "upstreamHeaders E req =
     foldl (\<lambda>hs h. case headers req h of
                      Some (HString v) \<Rightarrow> if v \<noteq> [] then AList.update h v hs else hs
                    | _ \<Rightarrow> hs)
       [(''x-api-key'', anthropicApiKey E), (''content-type'', ''application/json'')]
       FORWARD_HEADERS"

text \<open>Step 3: \<^verbatim>\<open>(body?.model as string) || ""\<close>.\<close>

definition body_model :: "request \<Rightarrow> json" where
  "body_model req = or_else (opt_prop (body req) ''model'') (JStr [])"

definition error_body :: "string \<Rightarrow> json" where
  "error_body msg = JObj [(''error'', JStr msg)]"

text \<open>Steps 3 to 5, shared by both revisions of the handler.\<close>

definition forward :: "'u env \<Rightarrow> request \<Rightarrow> call list \<Rightarrow> 'u outcome \<times> call list" where
  "forward E req calls =
     (let model = body_model req;
          hs = upstreamHeaders E req;
          calls1 = calls @ [FetchUpstream hs (body req)]
      in case fetch E hs (body req) of
           None \<Rightarrow> (Sent 502 (error_body ''Failed to reach Anthropic API''), calls1)
         | Some upstreamRes \<Rightarrow> (Relayed upstreamRes model, calls1))"

text \<open>The handler of \<^verbatim>\<open>POST /v1/messages\<close> that answers 503 when billing is unavailable.\<close>

definition registerProxyRoute :: "'u env \<Rightarrow> request \<Rightarrow> 'u outcome \<times> call list" where
  "registerProxyRoute E req =
     (case headers req ''x-api-key'' of
        Some (HString apiKey) \<Rightarrow>
          if apiKey = [] then (Sent 401 (error_body ''Missing x-api-key header''), [])
          else
            (case verify E apiKey of
               Inl (Error msg) \<Rightarrow>
                 (Sent 401 (JObj [(''error'', JStr ''Invalid or expired token''),
                                  (''details'', JStr msg)]),
                  [VerifyToken apiKey])
             | Inr jwt \<Rightarrow>
                 (let balanceResult = check E (JwtPayload.userId jwt) apiKey;
                      calls = [VerifyToken apiKey, CheckBalance (JwtPayload.userId jwt) apiKey]
                  in if \<not> BalanceResult2.ok balanceResult then
                       (if BalanceResult2.serviceUnavailable balanceResult = Some True
                        then (Sent 503 (error_body ''Billing service unavailable''), calls)
                        else (Sent 402 (error_body ''Insufficient balance''), calls))
                     else forward E req calls))
      | _ \<Rightarrow> (Sent 401 (error_body ''Missing x-api-key header''), []))"

text \<open>The earlier revision of the handler: every refusal of the balance check is a 402.\<close>

definition registerProxyRoute0 :: "'u env \<Rightarrow> request \<Rightarrow> 'u outcome \<times> call list" where
  "registerProxyRoute0 E req =
     (case headers req ''x-api-key'' of
        Some (HString apiKey) \<Rightarrow>
          if apiKey = [] then (Sent 401 (error_body ''Missing x-api-key header''), [])
          else
            (case verify E apiKey of
               Inl (Error msg) \<Rightarrow>
                 (Sent 401 (JObj [(''error'', JStr ''Invalid or expired token''),
                                  (''details'', JStr msg)]),
                  [VerifyToken apiKey])
             | Inr jwt \<Rightarrow>
                 (let hasBalance = BalanceResult2.ok (check E (JwtPayload.userId jwt) apiKey);
                      calls = [VerifyToken apiKey, CheckBalance (JwtPayload.userId jwt) apiKey]
                  in if \<not> hasBalance
                     then (Sent 402 (error_body ''Insufficient balance''), calls)
                     else forward E req calls))
      | _ \<Rightarrow> (Sent 401 (error_body ''Missing x-api-key header''), []))"

text \<open>Admission, as the specification words it: the key is a string, its verification
  succeeds, and the balance check returns \<open>ok\<close>.\<close>

definition admitted :: "'u env \<Rightarrow> request \<Rightarrow> bool" where
  "admitted E req =
     (case headers req ''x-api-key'' of
        Some (HString k) \<Rightarrow>
          k \<noteq> [] \<and>
          (case verify E k of
             Inl e \<Rightarrow> False
           | Inr jwt \<Rightarrow> BalanceResult2.ok (check E (JwtPayload.userId jwt) k))
      | _ \<Rightarrow> False)"

definition is_fetch :: "call \<Rightarrow> bool" where
  "is_fetch c = (case c of FetchUpstream hs b \<Rightarrow> True | _ \<Rightarrow> False)"

definition in_order :: "call list \<Rightarrow> bool" where
  "in_order calls =
     (case calls of
        [] \<Rightarrow> True
      | [VerifyToken k] \<Rightarrow> True
      | [VerifyToken k, CheckBalance u k'] \<Rightarrow> k' = k
      | [VerifyToken k, CheckBalance u k', FetchUpstream hs b] \<Rightarrow> k' = k
      | _ \<Rightarrow> False)"

definition rejected :: "'u outcome \<Rightarrow> bool" where
  "rejected out = (case out of Sent c j \<Rightarrow> c = 401 \<or> c = 402 \<or> c = 503 | Relayed r m \<Rightarrow> False)"

lemma forward_calls:
  "snd (forward E req calls) = calls @ [FetchUpstream (upstreamHeaders E req) (body req)]"
  by (simp add: forward_def Let_def split: option.splits)

lemma forward_not_rejected: "\<not> rejected (fst (forward E req calls))"
  by (simp add: forward_def Let_def rejected_def split: option.splits)

lemma route_fetch_iff:
  "(\<exists>c \<in> set (snd (registerProxyRoute E req)). is_fetch c) = admitted E req"
  by (auto simp: registerProxyRoute_def admitted_def forward_calls is_fetch_def Let_def
      split: option.splits header.splits sum.splits error.splits)

lemma route0_fetch_iff:
  "(\<exists>c \<in> set (snd (registerProxyRoute0 E req)). is_fetch c) = admitted E req"
  by (auto simp: registerProxyRoute0_def admitted_def forward_calls is_fetch_def Let_def
      split: option.splits header.splits sum.splits error.splits)

lemma route_in_order: "in_order (snd (registerProxyRoute E req))"
  by (auto simp: registerProxyRoute_def forward_calls in_order_def Let_def
      split: option.splits header.splits sum.splits error.splits)

lemma route0_in_order: "in_order (snd (registerProxyRoute0 E req))"
  by (auto simp: registerProxyRoute0_def forward_calls in_order_def Let_def
      split: option.splits header.splits sum.splits error.splits)

lemma route_rejected:
  "rejected (fst (registerProxyRoute E req)) \<Longrightarrow> \<not> admitted E req"
  by (auto simp: registerProxyRoute_def admitted_def forward_not_rejected Let_def
      split: option.splits header.splits sum.splits error.splits if_splits)

lemma route0_rejected:
  "rejected (fst (registerProxyRoute0 E req)) \<Longrightarrow> \<not> admitted E req"
  by (auto simp: registerProxyRoute0_def admitted_def forward_not_rejected Let_def
      split: option.splits header.splits sum.splits error.splits if_splits)

text \<open>A run of the handler: a token that verifies for \<^verbatim>\<open>user-1\<close>, any other is refused;
  the balance comes from \<open>checkBalance2\<close> on an empty cache; the upstream answers.\<close>

definition demo_env :: "fetched \<Rightarrow> unit env" where
  "demo_env billing_answer =
     \<lparr>anthropicApiKey = ''sk-real-anthropic-key'',
      verify = verifyToken (\<lambda>t. if t = ''valid-jwt'' then Inr [(''userId'', JStr ''user-1'')]
                                else Inl (Error ''Invalid signature'')),
      check = (\<lambda>u t. fst (checkBalance2 0 (\<lambda>tok. billing_answer) Map.empty u t)),
      fetch = (\<lambda>hs b. Some ())\<rparr>"

definition demo_request :: "string \<Rightarrow> request" where
  "demo_request k =
     \<lparr>headers = [''x-api-key'' \<mapsto> HString k, ''anthropic-version'' \<mapsto> HString ''2023-06-01''],
      body = Some (JObj [(''model'', JStr ''claude-sonnet-4-6''), (''messages'', JArr [])])\<rparr>"

definition broke :: balance_body where
  "broke = \<lparr>body_balance = Some 0, body_freeTokens = None,
     body_totalAvailable = Some 0, body_claudeBalance = Some 0\<rparr>"

lemmas demo_simps =
  demo_env_def demo_request_def verifyToken_def coalesce_def checkBalance2_def
  fallbackToStaleCache2_def allowance_only_def broke_def or_zero_def Let_def

lemma demo_admitted: "admitted (demo_env (Body allowance_only)) (demo_request ''valid-jwt'')"
  by (simp add: admitted_def demo_simps)

lemma demo_calls:
  "snd (registerProxyRoute (demo_env (Body allowance_only)) (demo_request ''valid-jwt'')) =
     [VerifyToken ''valid-jwt'', CheckBalance ''user-1'' ''valid-jwt'',
      FetchUpstream [(''x-api-key'', ''sk-real-anthropic-key''),
                     (''content-type'', ''application/json''),
                     (''anthropic-version'', ''2023-06-01'')]
        (Some (JObj [(''model'', JStr ''claude-sonnet-4-6''), (''messages'', JArr [])]))]"
  by (simp add: registerProxyRoute_def forward_def upstreamHeaders_def FORWARD_HEADERS_def
      demo_simps)

lemma demo_refused:
  "fst (registerProxyRoute (demo_env (Body allowance_only)) (demo_request ''bad-token'')) =
     Sent 401 (JObj [(''error'', JStr ''Invalid or expired token''),
                     (''details'', JStr ''Invalid signature'')])"
  by (simp add: registerProxyRoute_def demo_simps)

text \<open>
  C1. In both revisions of the handler the upstream is fetched if and only if the
  \<^verbatim>\<open>x-api-key\<close> header is a string whose verification succeeds and the balance check
  returns \<open>ok\<close>; the calls are made in the order verification, balance check, upstream
  fetch; and a request the handler rejects with 401, 402 or 503 makes no upstream fetch.
\<close>

theorem upstream_fetched_iff_admitted:
  "((\<exists>c \<in> set (snd (registerProxyRoute E req)). is_fetch c) = admitted E req) \<and>
   in_order (snd (registerProxyRoute E req)) \<and>
   (rejected (fst (registerProxyRoute E req)) \<longrightarrow>
      \<not> (\<exists>c \<in> set (snd (registerProxyRoute E req)). is_fetch c)) \<and>
   ((\<exists>c \<in> set (snd (registerProxyRoute0 E req)). is_fetch c) = admitted E req) \<and>
   in_order (snd (registerProxyRoute0 E req)) \<and>
   (rejected (fst (registerProxyRoute0 E req)) \<longrightarrow>
      \<not> (\<exists>c \<in> set (snd (registerProxyRoute0 E req)). is_fetch c))"
  using route_fetch_iff [of E req] route0_fetch_iff [of E req] route_in_order [of E req]
    route0_in_order [of E req] route_rejected [of E req] route0_rejected [of E req]
  by blast

theorem upstream_fetched_iff_admitted_witness:
  "admitted (demo_env (Body allowance_only)) (demo_request ''valid-jwt'') \<and>
   (\<exists>c \<in> set (snd (registerProxyRoute (demo_env (Body allowance_only))
                      (demo_request ''valid-jwt''))). is_fetch c) \<and>
   rejected (fst (registerProxyRoute (demo_env (Body allowance_only))
                      (demo_request ''bad-token''))) \<and>
   \<not> (\<exists>c \<in> set (snd (registerProxyRoute (demo_env (Body allowance_only))
                      (demo_request ''bad-token''))). is_fetch c)"
proof -
  have r: "rejected (fst (registerProxyRoute (demo_env (Body allowance_only))
                      (demo_request ''bad-token'')))"
    by (simp add: demo_refused rejected_def)
  from upstream_fetched_iff_admitted [of "demo_env (Body allowance_only)" "demo_request ''valid-jwt''"]
       upstream_fetched_iff_admitted [of "demo_env (Body allowance_only)" "demo_request ''bad-token''"]
       demo_admitted r
  show ?thesis by blast
qed

text \<open>The handler with the 503 branch: a refusal of the balance check is a 402
  \<^verbatim>\<open>{error: "Insufficient balance"}\<close> unless \<open>serviceUnavailable\<close> is true, and then a 503
  \<^verbatim>\<open>{error: "Billing service unavailable"}\<close>.\<close>

lemma refused_balance_replies:
  assumes "headers req ''x-api-key'' = Some (HString k)" and "k \<noteq> []"
    and "verify E k = Inr jwt"
    and "\<not> BalanceResult2.ok (check E (JwtPayload.userId jwt) k)"
  shows "(BalanceResult2.serviceUnavailable (check E (JwtPayload.userId jwt) k) \<noteq> Some True \<longrightarrow>
            fst (registerProxyRoute E req) =
              Sent 402 (JObj [(''error'', JStr ''Insufficient balance'')])) \<and>
         (BalanceResult2.serviceUnavailable (check E (JwtPayload.userId jwt) k) = Some True \<longrightarrow>
            fst (registerProxyRoute E req) =
              Sent 503 (JObj [(''error'', JStr ''Billing service unavailable'')]))"
  using assms by (simp add: registerProxyRoute_def error_body_def Let_def)

text \<open>The earlier revision has no 503: it reads only \<open>ok\<close> and answers 402 also when
  \<open>serviceUnavailable\<close> is true.\<close>

lemma earlier_revision_replies_402:
  assumes "headers req ''x-api-key'' = Some (HString k)" and "k \<noteq> []"
    and "verify E k = Inr jwt"
    and "\<not> BalanceResult2.ok (check E (JwtPayload.userId jwt) k)"
  shows "fst (registerProxyRoute0 E req) = Sent 402 (JObj [(''error'', JStr ''Insufficient balance'')])"
  using assms by (simp add: registerProxyRoute0_def error_body_def Let_def)

text \<open>
  C3. When verification succeeded and the balance check returned \<open>ok = false\<close> with
  \<open>serviceUnavailable = true\<close>, the earlier revision of the handler replies 402
  \<^verbatim>\<open>{error: "Insufficient balance"}\<close>, where the revision with the 503 branch replies 503
  \<^verbatim>\<open>{error: "Billing service unavailable"}\<close>. With \<open>serviceUnavailable\<close> unset or false both
  reply 402.
\<close>

theorem earlier_handler_402_when_unavailable:
  assumes "headers req ''x-api-key'' = Some (HString k)" and "k \<noteq> []"
    and "verify E k = Inr jwt"
    and "\<not> BalanceResult2.ok (check E (JwtPayload.userId jwt) k)"
  shows "(BalanceResult2.serviceUnavailable (check E (JwtPayload.userId jwt) k) = Some True \<longrightarrow>
            fst (registerProxyRoute0 E req) =
              Sent 402 (JObj [(''error'', JStr ''Insufficient balance'')]) \<and>
            fst (registerProxyRoute E req) =
              Sent 503 (JObj [(''error'', JStr ''Billing service unavailable'')])) \<and>
         (BalanceResult2.serviceUnavailable (check E (JwtPayload.userId jwt) k) \<noteq> Some True \<longrightarrow>
            fst (registerProxyRoute0 E req) =
              Sent 402 (JObj [(''error'', JStr ''Insufficient balance'')]) \<and>
            fst (registerProxyRoute E req) =
              Sent 402 (JObj [(''error'', JStr ''Insufficient balance'')]))"
  using refused_balance_replies [OF assms] earlier_revision_replies_402 [OF assms]
  by blast

theorem earlier_handler_402_when_unavailable_witness:
  "fst (registerProxyRoute0 (demo_env (NotOk 500)) (demo_request ''valid-jwt'')) =
     Sent 402 (JObj [(''error'', JStr ''Insufficient balance'')]) \<and>
   fst (registerProxyRoute (demo_env (NotOk 500)) (demo_request ''valid-jwt'')) =
     Sent 503 (JObj [(''error'', JStr ''Billing service unavailable'')]) \<and>
   fst (registerProxyRoute0 (demo_env (Body broke)) (demo_request ''valid-jwt'')) =
     Sent 402 (JObj [(''error'', JStr ''Insufficient balance'')]) \<and>
   fst (registerProxyRoute (demo_env (Body broke)) (demo_request ''valid-jwt'')) =
     Sent 402 (JObj [(''error'', JStr ''Insufficient balance'')])"
proof -
  let ?jwt = "\<lparr>JwtPayload.userId = ''user-1'',
      claims = (map_of [(''userId'', JStr ''user-1'')])(''userId'' \<mapsto> JStr ''user-1'')\<rparr>"
  have h: "headers (demo_request ''valid-jwt'') ''x-api-key'' = Some (HString ''valid-jwt'')"
    "''valid-jwt'' \<noteq> []"
    by (simp_all add: demo_request_def)
  have v: "verify (demo_env (Body broke)) ''valid-jwt'' = Inr ?jwt"
    "verify (demo_env (NotOk 500)) ''valid-jwt'' = Inr ?jwt"
    by (simp_all add: demo_simps)
  have b: "\<not> BalanceResult2.ok (check (demo_env (Body broke)) (JwtPayload.userId ?jwt) ''valid-jwt'')"
    "BalanceResult2.serviceUnavailable
       (check (demo_env (Body broke)) (JwtPayload.userId ?jwt) ''valid-jwt'') \<noteq> Some True"
    by (simp_all add: demo_simps)
  have u: "\<not> BalanceResult2.ok (check (demo_env (NotOk 500)) (JwtPayload.userId ?jwt) ''valid-jwt'')"
    "BalanceResult2.serviceUnavailable
       (check (demo_env (NotOk 500)) (JwtPayload.userId ?jwt) ''valid-jwt'') = Some True"
    by (simp_all add: demo_simps)
  from earlier_handler_402_when_unavailable [OF h v(1) b(1)] b(2)
       earlier_handler_402_when_unavailable [OF h v(2) u(1)] u(2)
  show ?thesis by blast
qed

end
